theory Spec2Isabelle
  imports Complex_Main
begin

section \<open>The animated counter of \<open>counter.jsx\<close>\<close>

text \<open>
  The component keeps two pieces of React state, \<open>count\<close> and \<open>isVisible\<close>, and owns one
  browser interval at a time. This theory embeds the component as a state machine over the
  events the host delivers (intersection changes, interval ticks, new props, unmount), with
  the JavaScript built-ins it calls modelled after ECMAScript.

  A JavaScript number is an IEEE 754 binary64 value. The finite ones are modelled: a number
  is the rational it denotes, or negative zero, and every arithmetic operation rounds its
  exact result to the nearest binary64 value, a tie going to the even significand. The
  exponent range is bounded below (subnormal numbers and underflow to zero are modelled)
  and not above: \<open>NaN\<close>, the infinities and overflow are outside the model.

  React is modelled at the level of commits: an event updates a state cell, the component
  renders, and the effects whose dependencies changed run before the next event is
  handled.
\<close>

subsection \<open>Binary64 rounding\<close>

text \<open>
  The integer logarithm: \<open>ilog b a\<close> is the \<open>e\<close> with \<open>b^e \<le> a < b^(e+1)\<close>, for a base of at
  least two and a positive \<open>a\<close>. It is computed by dividing a number above one, and by
  multiplying a number below one.
\<close>

function log_up :: "int \<Rightarrow> rat \<Rightarrow> int" where
  "log_up b a = (if b < 2 \<or> a < of_int b then 0 else log_up b (a / of_int b) + 1)"
  by pat_completeness auto
termination
proof (relation "measure (\<lambda>(b, a). nat \<lfloor>a\<rfloor>)")
  show "wf (measure (\<lambda>(b, a). nat \<lfloor>a\<rfloor>))" by simp
next
  fix b :: int and a :: rat
  assume "\<not> (b < 2 \<or> a < of_int b)"
  then have b: "2 \<le> b" and ab: "of_int b \<le> a" by simp_all
  have "(2::rat) \<le> of_int b" using b by simp
  with ab have a2: "2 \<le> a" by simp
  have "a / of_int b \<le> a / 2" using b a2 by (intro divide_left_mono) simp_all
  also have "\<dots> \<le> a - 1" using a2 by simp
  finally have "\<lfloor>a / of_int b\<rfloor> \<le> \<lfloor>a - 1\<rfloor>" by (rule floor_mono)
  moreover have "0 < \<lfloor>a\<rfloor>" using a2 by simp
  ultimately show "((b, a / of_int b), (b, a)) \<in> measure (\<lambda>(b, a). nat \<lfloor>a\<rfloor>)" by simp
qed

function log_down :: "int \<Rightarrow> rat \<Rightarrow> int" where
  "log_down b a = (if b < 2 \<or> a \<le> 0 \<or> 1 \<le> a then 0 else log_down b (a * of_int b) - 1)"
  by pat_completeness auto
termination
proof (relation "measure (\<lambda>(b, a). nat \<lceil>1 / a\<rceil>)")
  show "wf (measure (\<lambda>(b, a). nat \<lceil>1 / a\<rceil>))" by simp
next
  fix b :: int and a :: rat
  assume "\<not> (b < 2 \<or> a \<le> 0 \<or> 1 \<le> a)"
  then have b: "2 \<le> b" and a: "0 < a" "a < 1" by simp_all
  have x: "1 < 1 / a" using a by simp
  then have c: "2 \<le> \<lceil>1 / a\<rceil>" by linarith
  have b2: "(2::rat) \<le> of_int b" using b by simp
  have "1 / (a * of_int b) = (1 / a) / of_int b" by simp
  also have "\<dots> \<le> (1 / a) / 2" using b2 a by (intro divide_left_mono) simp_all
  also have "\<dots> \<le> of_int \<lceil>1 / a\<rceil> / 2" by (simp add: divide_right_mono)
  also have "\<dots> \<le> of_int (\<lceil>1 / a\<rceil> - 1)" using c by simp
  finally have "\<lceil>1 / (a * of_int b)\<rceil> \<le> \<lceil>1 / a\<rceil> - 1" by (rule ceiling_le)
  then show "((b, a * of_int b), (b, a)) \<in> measure (\<lambda>(b, a). nat \<lceil>1 / a\<rceil>)"
    using c a by simp
qed

declare log_up.simps [simp del] log_down.simps [simp del]

definition ilog :: "int \<Rightarrow> rat \<Rightarrow> int" where
  "ilog b a = (if 1 \<le> a then log_up b a else log_down b a)"

text \<open>The nearest integer, a tie going to the even one.\<close>

definition rne :: "rat \<Rightarrow> int" where
  "rne x = (let f = \<lfloor>x\<rfloor>; r = x - of_int f
            in if r < 1 / 2 then f else if 1 / 2 < r then f + 1
               else if even f then f else f + 1)"

text \<open>
  The exponent of the last bit of the significand of a positive number: a binary64 value
  has 53 significant bits, and its exponent is at least \<open>-1022\<close>.
\<close>

definition qexp :: "rat \<Rightarrow> int" where
  "qexp a = max (ilog 2 a) (- 1022) - 52"

text \<open>The binary64 value nearest to a rational.\<close>

definition fl :: "rat \<Rightarrow> rat" where
  "fl x = (if x = 0 then 0
           else let q = qexp \<bar>x\<bar>
                in sgn x * of_int (rne (\<bar>x\<bar> / 2 powi q)) * 2 powi q)"

subsection \<open>Numbers and their operators\<close>

datatype number = Num rat | NegZero

fun val :: "number \<Rightarrow> rat" where
  "val (Num r) = r"
| "val NegZero = 0"

text \<open>The sign bit.\<close>

definition negative :: "number \<Rightarrow> bool" where
  "negative x \<longleftrightarrow> val x < 0 \<or> x = NegZero"

text \<open>
  The number for an exact result \<open>r\<close>: \<open>r\<close> is rounded, and a zero takes the sign that the
  operation gives it.
\<close>

definition Number_value :: "bool \<Rightarrow> rat \<Rightarrow> number" where
  "Number_value neg r = (let v = fl r in if v = 0 \<and> neg then NegZero else Num v)"

text \<open>
  The operators \<open>+\<close>, unary and binary \<open>-\<close>, \<open>/\<close>, \<open>>=\<close> and \<open>!==\<close> on numbers. A sum that is
  exactly zero is negative only when both terms are negative zeros; a quotient has the
  sign of its operands. The source divides by \<open>100\<close> and by \<open>totalSteps\<close>, which is at least
  one: division by zero is not modelled. The comparisons do not tell the zeros apart.
\<close>

definition num_add :: "number \<Rightarrow> number \<Rightarrow> number" where
  "num_add a b =
     (if a = NegZero \<and> b = NegZero then NegZero
      else Number_value (val a + val b < 0) (val a + val b))"

definition num_neg :: "number \<Rightarrow> number" where
  "num_neg a = (case a of NegZero \<Rightarrow> Num 0 | Num r \<Rightarrow> if r = 0 then NegZero else Num (- r))"

definition num_sub :: "number \<Rightarrow> number \<Rightarrow> number" where
  "num_sub a b = num_add a (num_neg b)"

definition num_div :: "number \<Rightarrow> number \<Rightarrow> number" where
  "num_div a b = Number_value (negative a \<noteq> negative b) (val a / val b)"

definition num_ge :: "number \<Rightarrow> number \<Rightarrow> bool" where
  "num_ge a b \<longleftrightarrow> val b \<le> val a"

definition num_ne :: "number \<Rightarrow> number \<Rightarrow> bool" where
  "num_ne a b \<longleftrightarrow> val a \<noteq> val b"

subsection \<open>Decimal digits\<close>

definition digit_char :: "int \<Rightarrow> char" where
  "digit_char d = ''0123456789'' ! nat d"

definition is_digit :: "char \<Rightarrow> bool" where
  "is_digit c = (c \<in> set ''0123456789'')"

definition digit_val :: "char \<Rightarrow> int" where
  "digit_val c = int (length (takeWhile (\<lambda>d. d \<noteq> c) ''0123456789''))"

text \<open>
  The decimal representation of a non-negative integer, most significant digit first.
\<close>

function dec :: "int \<Rightarrow> string" where
  "dec n = (if n < 10 then [digit_char n] else dec (n div 10) @ [digit_char (n mod 10)])"
  by pat_completeness auto
termination
  by (relation "measure nat") auto

declare dec.simps [simp del]

text \<open>The number a string of digits denotes.\<close>

definition num :: "string \<Rightarrow> int" where
  "num ds = foldl (\<lambda>a c. 10 * a + digit_val c) 0 ds"

subsection \<open>The shortest decimal of a number\<close>

text \<open>
  \<open>Number::toString\<close> writes a positive number \<open>x\<close> with the digits of the integer \<open>s\<close> of
  fewest digits such that some \<open>s * 10^e\<close> rounds to \<open>x\<close>; among several the one closest to
  \<open>x\<close>, and the even one on a tie. With \<open>k\<close> digits and \<open>10^(m-1) \<le> x < 10^m\<close> the candidates
  are the two multiples of \<open>10^(m-k)\<close> around \<open>x\<close>. Seventeen digits determine a binary64
  number; should the search end without a candidate, the exact decimal expansion
  \<open>x = n * 2^q\<close> is returned.
\<close>

definition exact :: "rat \<Rightarrow> int \<times> int" where
  "exact x =
     (let q = qexp x
      in if 0 \<le> q then (\<lfloor>x\<rfloor>, 0) else (\<lfloor>x / 2 powi q\<rfloor> * 5 ^ nat (- q), q))"

fun search :: "rat \<Rightarrow> int \<Rightarrow> nat \<Rightarrow> nat \<Rightarrow> int \<times> int" where
  "search x m k 0 = exact x"
| "search x m k (Suc fuel) =
     (let e = m - int k;
          u = 10 powi e;
          lo = \<lfloor>x / u\<rfloor>;
          hi = lo + 1;
          below = (fl (of_int lo * u) = x);
          above = (fl (of_int hi * u) = x)
      in if below \<and> above then
           (if x - of_int lo * u < of_int hi * u - x then (lo, e)
            else if of_int hi * u - x < x - of_int lo * u then (hi, e)
            else if even lo then (lo, e) else (hi, e))
         else if below then (lo, e)
         else if above then (hi, e)
         else search x m (Suc k) fuel)"

definition shortest :: "rat \<Rightarrow> int \<times> int" where
  "shortest x = (if x = 0 then (0, 0) else search x (ilog 10 x + 1) 1 17)"

subsection \<open>The JavaScript built-ins the component calls\<close>

text \<open>
  \<open>Math.round\<close>: the nearest integer, a tie going up. The result is a negative zero for a
  negative zero and for a number in \<open>[-0.5, 0)\<close>. \<open>Math.ceil\<close> likewise gives a negative zero
  for a number in \<open>(-1, 0)\<close>. \<open>Math.max\<close> takes the positive zero for the larger zero. On
  binary64 values the integers computed here are exact.
\<close>

definition Math_round :: "number \<Rightarrow> number" where
  "Math_round x =
     (case x of
        NegZero \<Rightarrow> NegZero
      | Num r \<Rightarrow> (let v = \<lfloor>r + 1 / 2\<rfloor> in if v = 0 \<and> r < 0 then NegZero else Num (of_int v)))"

definition Math_ceil :: "number \<Rightarrow> number" where
  "Math_ceil x =
     (case x of
        NegZero \<Rightarrow> NegZero
      | Num r \<Rightarrow> (let v = \<lceil>r\<rceil> in if v = 0 \<and> r < 0 then NegZero else Num (of_int v)))"

definition Math_max :: "number \<Rightarrow> number \<Rightarrow> number" where
  "Math_max a b =
     (if val a < val b then b
      else if val b < val a then a
      else if a = NegZero then b else a)"

text \<open>
  The nearest integer to a non-negative \<open>x\<close>, the larger one on a tie: the \<open>n\<close> that
  \<open>toFixed\<close> and the number formatter of \<open>toLocaleString\<close> pick for the magnitude.
\<close>

definition nearest :: "rat \<Rightarrow> int" where
  "nearest x = \<lfloor>x + 1 / 2\<rfloor>"

fun strip_zeros :: "string \<Rightarrow> string" where
  "strip_zeros [] = []"
| "strip_zeros (c # cs) =
     (let r = strip_zeros cs in if r = [] \<and> c = CHR ''0'' then [] else c # r)"

text \<open>
  \<open>Number::toString\<close> on a magnitude of at least \<open>10^21\<close>, where it writes exponent
  notation: the digits of the shortest decimal without trailing zeros, a point after the
  first one, and the decimal exponent of the first digit.
\<close>

definition Number_toString_exp :: "rat \<Rightarrow> string" where
  "Number_toString_exp x =
     (let (n, e) = shortest x;
          ds = dec n;
          s = strip_zeros ds
      in (if length s \<le> 1 then take 1 ds else hd s # CHR ''.'' # tl s)
         @ ''e+'' @ dec (e + int (length ds) - 1))"

text \<open>
  \<open>Number.prototype.toFixed(f)\<close>, following the steps of ECMAScript: the sign is split off
  (a negative zero has none), a magnitude of \<open>10^21\<close> or more is handed to \<open>ToString\<close>, and
  otherwise the digits of the \<open>n\<close> with \<open>n / 10^f\<close> closest to the exact magnitude are padded
  with zeros to \<open>f + 1\<close> digits and the point is put before the last \<open>f\<close> of them.
\<close>

definition toFixed :: "nat \<Rightarrow> number \<Rightarrow> string" where
  "toFixed f x0 =
     (let s = (if val x0 < 0 then ''-'' else []);
          x = \<bar>val x0\<bar>
      in if x \<ge> 10 ^ 21 then s @ Number_toString_exp x
         else
           let n = nearest (x * 10 ^ f);
               m = dec n;
               m = (if f \<noteq> 0
                    then (let k = length m;
                              m = (if k \<le> f then replicate (f + 1 - k) CHR ''0'' @ m else m);
                              k = (if k \<le> f then f + 1 else k)
                          in take (k - f) m @ ''.'' @ drop (k - f) m)
                    else m)
           in s @ m)"

text \<open>
  \<open>parseFloat\<close>: leading white space is skipped, then the longest prefix that is a decimal
  literal (sign, digits, fraction, exponent) is read, and the result is the number nearest
  to the decimal, a negative zero for a literal of value zero with a minus sign; \<open>None\<close>
  stands for \<open>NaN\<close>, the result when no digit is found. The literal \<open>Infinity\<close> is not
  modelled.
\<close>

definition is_space :: "char \<Rightarrow> bool" where
  "is_space c = (c \<in> set [CHR '' '', CHR 0x09, CHR 0x0A, CHR 0x0B, CHR 0x0C, CHR 0x0D])"

definition pow10 :: "int \<Rightarrow> rat" where
  "pow10 e = (if e \<ge> 0 then 10 ^ nat e else 1 / 10 ^ nat (- e))"

definition parse_exponent :: "string \<Rightarrow> int" where
  "parse_exponent s =
     (case s of
        [] \<Rightarrow> 0
      | c # r \<Rightarrow>
          if c = CHR ''e'' \<or> c = CHR ''E'' then
            (let (neg, r') = (case r of
                                [] \<Rightarrow> (False, r)
                              | d # t \<Rightarrow> if d = CHR ''-'' then (True, t)
                                         else if d = CHR ''+'' then (False, t)
                                         else (False, r));
                 ds = takeWhile is_digit r'
             in if ds = [] then 0
                else if neg then - num ds else num ds)
          else 0)"

definition parseFloat :: "string \<Rightarrow> number option" where
  "parseFloat s0 =
     (let s = dropWhile is_space s0;
          (neg, s) = (case s of
                        [] \<Rightarrow> (False, s)
                      | c # r \<Rightarrow> if c = CHR ''-'' then (True, r)
                                 else if c = CHR ''+'' then (False, r)
                                 else (False, s));
          ip = takeWhile is_digit s;
          r1 = dropWhile is_digit s;
          (fp, r2) = (case r1 of
                        [] \<Rightarrow> ([], r1)
                      | c # r \<Rightarrow> if c = CHR ''.''
                                 then (takeWhile is_digit r, dropWhile is_digit r)
                                 else ([], r1))
      in if ip = [] \<and> fp = [] then None
         else
           let mant = of_int (num ip) + of_int (num fp) / 10 ^ length fp;
               v = mant * pow10 (parse_exponent r2)
           in Some (Number_value neg (if neg then - v else v)))"

text \<open>
  \<open>Number.prototype.toLocaleString("en-US")\<close> with the default options: the sign (also of
  a negative zero), then the shortest decimal of the magnitude with at most three fraction
  digits (the nearest thousandth, a tie away from zero), trailing zeros of the fraction
  dropped, and the integer digits in groups of three separated by commas.
\<close>

fun group3 :: "string \<Rightarrow> string" where
  "group3 (a # b # c # d # r) = a # b # c # CHR '','' # group3 (d # r)"
| "group3 ds = ds"

definition toLocaleString :: "number \<Rightarrow> string" where
  "toLocaleString x0 =
     (let s = (if negative x0 then ''-'' else []);
          (d, e) = shortest \<bar>val x0\<bar>;
          n = nearest (of_int d * 10 powi e * 1000);
          ip = rev (group3 (rev (dec (n div 1000))));
          fd = dec (n mod 1000);
          fp = strip_zeros (replicate (3 - length fd) CHR ''0'' @ fd)
      in s @ ip @ (if fp = [] then [] else CHR ''.'' # fp))"

text \<open>\<open>String.prototype.replace(/,/g, ".")\<close>: every comma becomes a period.\<close>

definition replace_commas :: "string \<Rightarrow> string" where
  "replace_commas s = map (\<lambda>c. if c = CHR '','' then CHR ''.'' else c) s"

subsection \<open>Props\<close>

text \<open>
  The props of \<open>Counter\<close>, one field per destructured name. The prop \<open>end\<close> is the field
  \<open>endv\<close>, since \<open>end\<close> is a keyword here. A font value is an object with a family and a
  weight.
\<close>

record font =
  fontFamily :: string
  fontWeight :: int

record props =
  start :: number
  endv :: number
  gapSize :: number
  prefixText :: string
  suffixText :: string
  prefixFont :: font
  suffixFont :: font
  prefixColor :: string
  suffixColor :: string
  loop :: bool
  decimalSeparatorType :: string
  textSize :: number
  selectedFont :: font
  textColor :: string
  startOnViewport :: bool
  restartOnViewport :: bool
  incrementType :: string
  duration :: number

subsection \<open>The formatter and the rendered element\<close>

text \<open>
  \<open>formatNumber\<close> closes over \<open>decimalSeparatorType\<close> and \<open>incrementType\<close>; they are its
  first two arguments here.
\<close>

definition formatNumber :: "string \<Rightarrow> string \<Rightarrow> number \<Rightarrow> string" where
  "formatNumber sep inc number =
     (if sep = ''comma'' then toLocaleString number
      else if sep = ''period'' then replace_commas (toLocaleString number)
      else toFixed (if inc = ''integer'' then 0 else 1) number)"

text \<open>
  What the component returns: the container's style and the three spans. Lengths are kept
  as numbers (the source appends \<open>px\<close>).
\<close>

record span =
  spanText :: string
  spanFont :: "font option"
  spanColor :: "string option"

record element =
  styleGap :: number
  styleFontSize :: number
  styleFont :: font
  styleColor :: string
  children :: "span list"

definition render :: "props \<Rightarrow> number \<Rightarrow> element" where
  "render p count =
     \<lparr>styleGap = gapSize p,
      styleFontSize = textSize p,
      styleFont = selectedFont p,
      styleColor = textColor p,
      children =
        [\<lparr>spanText = prefixText p, spanFont = Some (prefixFont p),
          spanColor = Some (prefixColor p)\<rparr>,
         \<lparr>spanText = formatNumber (decimalSeparatorType p) (incrementType p) (Math_round count),
          spanFont = None, spanColor = None\<rparr>,
         \<lparr>spanText = suffixText p, spanFont = Some (suffixFont p),
          spanColor = Some (suffixColor p)\<rparr>]\<rparr>"

subsection \<open>The interval callback\<close>

text \<open>
  \<open>updateCount\<close> is created inside the timer effect and reads \<open>duration\<close>, \<open>end\<close> and
  \<open>start\<close> of the render that ran the effect: these three are its closure. Applied to the
  previous count it gives the next one (the function handed to \<open>setCount\<close>). A \<open>NaN\<close> from
  \<open>parseFloat\<close> would compare false with \<open>end\<close> and become the count; \<open>toFixed\<close> never
  returns a string without a number, and the model keeps the previous count there.
\<close>

record closure =
  env_start :: number
  env_end :: number
  env_duration :: number

definition capture :: "props \<Rightarrow> closure" where
  "capture p = \<lparr>env_start = start p, env_end = endv p, env_duration = duration p\<rparr>"

definition updateCount :: "closure \<Rightarrow> number \<Rightarrow> number" where
  "updateCount env prevCount =
     (let totalSteps = Math_max (Num 1) (Math_ceil (num_div (env_duration env) (Num 100)));
          increment = num_div (num_sub (env_end env) (env_start env)) totalSteps
      in case parseFloat (toFixed 2 (num_add prevCount increment)) of
           None \<Rightarrow> prevCount
         | Some nextCount \<Rightarrow> if num_ge nextCount (env_end env) then env_end env else nextCount)"

subsection \<open>The component as a state machine\<close>

text \<open>
  An interval of the browser's timer table: its handle, its delay in milliseconds and the
  closure of its callback.
\<close>

record interval =
  intervalId :: nat
  delay :: number
  callback :: closure

type_synonym timer_deps =
  "number \<times> number \<times> number \<times> bool \<times> bool \<times> bool \<times> string \<times> number"
type_synonym restart_deps = "bool \<times> bool \<times> number"

text \<open>
  The state of a mounted component: the current props, the two \<open>useState\<close> cells, the
  browser's intervals, the cleanup of the timer effect (it holds the handle to clear) and
  the dependency values each effect last ran with. React compares dependency values and
  state values with \<open>Object.is\<close>, which tells the two zeros apart, as equality on \<open>number\<close>
  does.
\<close>

record state =
  props :: props
  count :: number
  isVisible :: bool
  mounted :: bool
  intervals :: "interval list"
  nextId :: nat
  timerCleanup :: "nat option"
  timerDeps :: timer_deps
  restartDeps :: restart_deps

definition setInterval :: "closure \<Rightarrow> number \<Rightarrow> state \<Rightarrow> nat \<times> state" where
  "setInterval cb d s =
     (nextId s,
      s\<lparr>intervals := intervals s @ [\<lparr>intervalId = nextId s, delay = d, callback = cb\<rparr>],
        nextId := Suc (nextId s)\<rparr>)"

definition clearInterval :: "nat \<Rightarrow> state \<Rightarrow> state" where
  "clearInterval i s = s\<lparr>intervals := filter (\<lambda>iv. intervalId iv \<noteq> i) (intervals s)\<rparr>"

definition timer_deps_of :: "state \<Rightarrow> timer_deps" where
  "timer_deps_of s =
     (count s, start (props s), endv (props s), loop (props s), isVisible s,
      startOnViewport (props s), incrementType (props s), duration (props s))"

definition restart_deps_of :: "state \<Rightarrow> restart_deps" where
  "restart_deps_of s = (isVisible s, restartOnViewport (props s), start (props s))"

text \<open>The body of the second effect (lines 56 to 78), and the cleanup it returns.\<close>

definition timer_effect :: "state \<Rightarrow> state" where
  "timer_effect s =
     (let p = props s
      in if isVisible s \<or> (\<not> startOnViewport p \<and> num_ne (start p) (endv p)) then
           (let (i, s') = setInterval (capture p)
                            (num_div (duration p)
                               (Math_max (Num 1) (Math_ceil (num_div (duration p) (Num 100))))) s
            in s'\<lparr>timerCleanup := Some i\<rparr>)
         else if startOnViewport p \<and> isVisible s then s\<lparr>count := start p, timerCleanup := None\<rparr>
         else s\<lparr>timerCleanup := None\<rparr>)"

definition timer_cleanup :: "state \<Rightarrow> state" where
  "timer_cleanup s =
     (case timerCleanup s of
        None \<Rightarrow> s
      | Some i \<Rightarrow> (clearInterval i s)\<lparr>timerCleanup := None\<rparr>)"

text \<open>The body of the third effect (lines 90 to 94).\<close>

definition restart_effect :: "state \<Rightarrow> state" where
  "restart_effect s =
     (if restartOnViewport (props s) \<and> isVisible s then s\<lparr>count := start (props s)\<rparr> else s)"

text \<open>
  One commit: every effect whose dependencies differ from those of its last run is cleaned
  up and run again, in the order of the source. \<open>setCount\<close> inside an effect asks for one
  more render, whose commit is the second pass of \<open>rerender\<close>; a commit with unchanged
  dependencies does nothing.
\<close>

definition commit :: "state \<Rightarrow> state" where
  "commit s =
     (let td = timer_deps_of s;
          rd = restart_deps_of s;
          t = (td \<noteq> timerDeps s);
          r = (rd \<noteq> restartDeps s);
          s1 = (if t then timer_cleanup s else s);
          s2 = (if t then (timer_effect s1)\<lparr>timerDeps := td\<rparr> else s1)
      in if r then (restart_effect s2)\<lparr>restartDeps := rd\<rparr> else s2)"

definition rerender :: "state \<Rightarrow> state" where
  "rerender s = commit (commit s)"

text \<open>
  Mounting: \<open>count\<close> starts at \<open>start\<close>, \<open>isVisible\<close> at false, and every effect runs once.
\<close>

definition initial :: "props \<Rightarrow> state" where
  "initial p =
     \<lparr>props = p, count = start p, isVisible = False, mounted = True,
      intervals = [], nextId = 1, timerCleanup = None,
      timerDeps = (start p, start p, endv p, loop p, False, startOnViewport p,
                   incrementType p, duration p),
      restartDeps = (False, restartOnViewport p, start p)\<rparr>"

definition mount :: "props \<Rightarrow> state" where
  "mount p = commit (restart_effect (timer_effect (initial p)))"

definition unmount :: "state \<Rightarrow> state" where
  "unmount s = (timer_cleanup s)\<lparr>mounted := False\<rparr>"

text \<open>
  The events the host delivers: the intersection observer reports \<open>isIntersecting\<close>, the
  browser fires the interval with a given handle, the parent renders the component with new
  props, or the component is unmounted. A handle that is not in the timer table fires
  nothing, and React drops state updates of an unmounted component. A state update to the
  value the cell already holds does not render.
\<close>

datatype event = Intersect bool | Tick nat | SetProps props | Unmount

fun step :: "event \<Rightarrow> state \<Rightarrow> state" where
  "step (Intersect b) s =
     (if mounted s \<and> isVisible s \<noteq> b then rerender (s\<lparr>isVisible := b\<rparr>) else s)"
| "step (Tick i) s =
     (case find (\<lambda>iv. intervalId iv = i) (intervals s) of
        None \<Rightarrow> s
      | Some iv \<Rightarrow>
          (let c = updateCount (callback iv) (count s)
           in if mounted s \<and> c \<noteq> count s then rerender (s\<lparr>count := c\<rparr>) else s))"
| "step (SetProps q) s = (if mounted s then rerender (s\<lparr>props := q\<rparr>) else s)"
| "step Unmount s = (if mounted s then unmount s else s)"

fun run :: "state \<Rightarrow> event list \<Rightarrow> state" where
  "run s [] = s"
| "run s (e # es) = run (step e s) es"

text \<open>The states a run goes through, the starting one first.\<close>

fun trace :: "state \<Rightarrow> event list \<Rightarrow> state list" where
  "trace s [] = [s]"
| "trace s (e # es) = s # trace (step e s) es"

text \<open>
  \<open>Counter.defaultProps\<close>, completed with the defaults of the property controls for the
  props it leaves out; the colours without a default are empty.
\<close>

definition Inter :: font where
  "Inter = \<lparr>fontFamily = ''Inter'', fontWeight = 500\<rparr>"

definition defaultProps :: props where
  "defaultProps =
     \<lparr>start = Num 0, endv = Num 100, gapSize = Num 4, prefixText = [], suffixText = [],
      prefixFont = Inter, suffixFont = Inter, prefixColor = [], suffixColor = [],
      loop = False, decimalSeparatorType = ''comma'', textSize = Num 36, selectedFont = Inter,
      textColor = ''#D3D3D3'', startOnViewport = False, restartOnViewport = False,
      incrementType = ''integer'', duration = Num 2000\<rparr>"

subsection \<open>Notions used in the statements\<close>

text \<open>
  The number of steps and the step size \<open>updateCount\<close> computes, and the delay the effect
  hands to \<open>setInterval\<close>.
\<close>

definition totalSteps :: "props \<Rightarrow> number" where
  "totalSteps p = Math_max (Num 1) (Math_ceil (num_div (duration p) (Num 100)))"

definition increment :: "props \<Rightarrow> number" where
  "increment p = num_div (num_sub (endv p) (start p)) (totalSteps p)"

definition tick_delay :: "props \<Rightarrow> number" where
  "tick_delay p =
     num_div (duration p) (Math_max (Num 1) (Math_ceil (num_div (duration p) (Num 100))))"

text \<open>The nearest hundredth of a rational, a tie going away from zero.\<close>

definition hundredth :: "rat \<Rightarrow> rat" where
  "hundredth x = sgn x * of_int (nearest (\<bar>x\<bar> * 100)) / 100"

text \<open>
  What \<open>parseFloat(x.toFixed(2))\<close> evaluates to: below \<open>10^21\<close> the number nearest to the
  nearest hundredth of \<open>x\<close>, a negative zero when a negative \<open>x\<close> rounds to zero; from
  \<open>10^21\<close> on \<open>x\<close> itself, which its shortest decimal determines.
\<close>

definition fix2 :: "number \<Rightarrow> number" where
  "fix2 x =
     (if \<bar>val x\<bar> < 10 ^ 21 then Number_value (val x < 0) (hundredth (val x)) else x)"

text \<open>
  A number written with at most two decimals: the binary64 value nearest to its own nearest
  hundredth, in the range where \<open>toFixed\<close> writes fixed-point notation.
\<close>

definition two_decimals :: "number \<Rightarrow> bool" where
  "two_decimals x \<longleftrightarrow> \<bar>val x\<bar> < 10 ^ 21 \<and> fl (hundredth (val x)) = val x"

text \<open>
  Fixed-point notation with \<open>d\<close> decimals, as the words say: the sign, the integer part of
  the magnitude rounded to \<open>d\<close> decimals, and, when \<open>d\<close> is not zero, a point and exactly
  \<open>d\<close> fraction digits.
\<close>

definition fixed_point :: "nat \<Rightarrow> rat \<Rightarrow> string" where
  "fixed_point d x =
     (let n = nearest (\<bar>x\<bar> * 10 ^ d);
          fd = dec (n mod 10 ^ d)
      in (if x < 0 then ''-'' else []) @ dec (n div 10 ^ d) @
         (if d = 0 then [] else CHR ''.'' # replicate (d - length fd) CHR ''0'' @ fd))"

text \<open>
  Thousands grouping, as the words say: a number below a thousand is its digits, and a
  larger one is the grouping of its thousands, a comma, and its last three digits.
\<close>

function thousands :: "int \<Rightarrow> string" where
  "thousands n =
     (if n < 1000 then dec n
      else thousands (n div 1000) @ CHR '','' #
           [digit_char (n div 100 mod 10), digit_char (n div 10 mod 10), digit_char (n mod 10)])"
  by pat_completeness auto
termination
  by (relation "measure nat") auto

declare thousands.simps [simp del]

text \<open>The condition under which the timer effect creates an interval.\<close>

definition scheduled :: "state \<Rightarrow> bool" where
  "scheduled s \<longleftrightarrow>
     isVisible s \<or> (\<not> startOnViewport (props s) \<and> num_ne (start (props s)) (endv (props s)))"

text \<open>
  The timer table holds what the cleanup of the timer effect will clear, and nothing else.
\<close>

definition owned :: "state \<Rightarrow> bool" where
  "owned s \<longleftrightarrow>
     (case timerCleanup s of
        None \<Rightarrow> intervals s = []
      | Some i \<Rightarrow> i < nextId s \<and>
          (\<exists>d cb. intervals s = [\<lparr>intervalId = i, delay = d, callback = cb\<rparr>]))"

text \<open>The timer effect run afresh: its cleanup followed by its body.\<close>

definition refresh :: "state \<Rightarrow> state" where
  "refresh s =
     (if scheduled s
      then s\<lparr>intervals := [\<lparr>intervalId = nextId s, delay = tick_delay (props s),
                              callback = capture (props s)\<rparr>],
             nextId := Suc (nextId s), timerCleanup := Some (nextId s)\<rparr>
      else s\<lparr>intervals := [], timerCleanup := None\<rparr>)"

text \<open>
  The interval a state should own: one whose callback closes over the current props when
  the condition of the effect holds, none otherwise.
\<close>

definition timer_ok :: "state \<Rightarrow> bool" where
  "timer_ok s \<longleftrightarrow>
     (if scheduled s
      then \<exists>i. i < nextId s \<and> timerCleanup s = Some i \<and>
               intervals s = [\<lparr>intervalId = i, delay = tick_delay (props s),
                                callback = capture (props s)\<rparr>]
      else timerCleanup s = None \<and> intervals s = [])"

text \<open>
  A state between events: every effect has run with the current dependency values, and an
  unmounted component owns no interval.
\<close>

definition settled :: "state \<Rightarrow> bool" where
  "settled s \<longleftrightarrow>
     (if mounted s
      then timerDeps s = timer_deps_of s \<and> restartDeps s = restart_deps_of s \<and> timer_ok s
      else timerCleanup s = None \<and> intervals s = [])"

text \<open>A handle that was issued and is no longer in the timer table.\<close>

definition cleared :: "nat \<Rightarrow> state \<Rightarrow> bool" where
  "cleared i s \<longleftrightarrow> i < nextId s \<and> i \<notin> intervalId ` set (intervals s)"

text \<open>An event with the \<open>loop\<close> prop it may carry set to \<open>b\<close>.\<close>

definition with_loop :: "bool \<Rightarrow> event \<Rightarrow> event" where
  "with_loop b e = (case e of SetProps q \<Rightarrow> SetProps (q\<lparr>loop := b\<rparr>) | _ \<Rightarrow> e)"

text \<open>A state with every occurrence of the \<open>loop\<close> prop set to \<open>b\<close>.\<close>

definition loop_to :: "bool \<Rightarrow> state \<Rightarrow> state" where
  "loop_to b s =
     s\<lparr>props := (props s)\<lparr>loop := b\<rparr>,
       timerDeps := (case timerDeps s of (c, st, en, l, r) \<Rightarrow> (c, st, en, b, r))\<rparr>"

text \<open>The \<open>loop\<close> value the timer effect last ran with is the current one.\<close>

definition loop_stored :: "state \<Rightarrow> bool" where
  "loop_stored s = (case timerDeps s of (c, st, en, l, r) \<Rightarrow> l = loop (props s))"

text \<open>What is on screen: the element rendered from the current props and count.\<close>

definition rendered :: "state \<Rightarrow> element" where
  "rendered s = render (props s) (count s)"

section \<open>Facts about binary64 rounding\<close>

subsection \<open>The integer logarithm\<close>

lemma log_up_bounds:
  "2 \<le> b \<Longrightarrow> 1 \<le> a \<Longrightarrow>
   of_int b powi log_up b a \<le> a \<and> a < of_int b powi (log_up b a + 1)"
proof (induction b a rule: log_up.induct)
  case (1 b a)
  show ?case
  proof (cases "a < of_int b")
    case True
    with 1(2,3) show ?thesis by (subst (1 2) log_up.simps) simp
  next
    case False
    have b0: "(0::rat) < of_int b" using 1(2) by simp
    from False 1(2) have "1 \<le> a / of_int b" using b0 by (simp add: le_divide_eq)
    with 1 False have ih: "of_int b powi log_up b (a / of_int b) \<le> a / of_int b"
      "a / of_int b < of_int b powi (log_up b (a / of_int b) + 1)" by simp_all
    have eq: "log_up b a = log_up b (a / of_int b) + 1"
      using False 1(2) by (subst log_up.simps) simp
    have p: "of_int b powi (l + 1) = of_int b powi l * (of_int b :: rat)" for l
      using b0 by (intro power_int_add_1) simp
    define l where "l = log_up b (a / of_int b)"
    from ih(1) have "of_int b powi l * of_int b \<le> a"
      using b0 by (simp add: le_divide_eq l_def)
    then have A: "of_int b powi (l + 1) \<le> a" by (simp only: p)
    from ih(2) have "a < of_int b powi (l + 1) * of_int b"
      using b0 by (simp add: divide_less_eq l_def)
    then have B: "a < of_int b powi (l + 1 + 1)" by (simp only: p)
    from A B show ?thesis unfolding eq l_def [symmetric] by blast
  qed
qed

lemma log_down_bounds:
  "2 \<le> b \<Longrightarrow> 0 < a \<Longrightarrow> a < 1 \<Longrightarrow>
   of_int b powi log_down b a \<le> a \<and> a < of_int b powi (log_down b a + 1)"
proof (induction b a rule: log_down.induct)
  case (1 b a)
  have b0: "(0::rat) < of_int b" "(1::rat) < of_int b" using 1(2) by simp_all
  have p: "of_int b powi (l + 1) = of_int b powi l * (of_int b :: rat)" for l
    using b0 by (intro power_int_add_1) simp
  have eq: "log_down b a = log_down b (a * of_int b) - 1"
    using 1(2,3,4) by (subst log_down.simps) simp
  show ?case
  proof (cases "a * of_int b < 1")
    case True
    have "0 < a * of_int b" using 1(3) b0 by simp
    with 1 True have ih: "of_int b powi log_down b (a * of_int b) \<le> a * of_int b"
      "a * of_int b < of_int b powi (log_down b (a * of_int b) + 1)" by simp_all
    from ih(1) p [of "log_down b (a * of_int b) - 1"]
    have "of_int b powi (log_down b (a * of_int b) - 1) \<le> a" using b0 by simp
    moreover from ih(2) p [of "log_down b (a * of_int b)"]
    have "a < of_int b powi log_down b (a * of_int b)" using b0 by simp
    ultimately show ?thesis unfolding eq by simp
  next
    case False
    then have z: "log_down b (a * of_int b) = 0" by (subst log_down.simps) simp
    have "of_int b powi (- 1) \<le> a"
      using False b0 by (simp add: power_int_minus field_simps)
    then show ?thesis unfolding eq z using 1(4) by simp
  qed
qed

lemma ilog_bounds:
  assumes "2 \<le> b" "0 < a"
  shows "of_int b powi ilog b a \<le> a" "a < of_int b powi (ilog b a + 1)"
  using log_up_bounds [OF assms(1), of a] log_down_bounds [OF assms, of ]
  by (auto simp: ilog_def not_le)

lemma powi_less_cancel:
  fixes x :: rat
  assumes "1 < x" "x powi m < x powi n"
  shows "m < n"
proof (rule ccontr)
  assume "\<not> m < n"
  then have "n \<le> m" by simp
  then have "x powi n \<le> x powi m" using assms(1) by (intro power_int_increasing) simp_all
  with assms(2) show False by simp
qed

lemma ilog_unique:
  assumes "2 \<le> b" "of_int b powi e \<le> a" "a < of_int b powi (e + 1)"
  shows "ilog b a = e"
proof -
  have b1: "(1::rat) < of_int b" using assms(1) by simp
  have a0: "0 < a"
  proof -
    have "(0::rat) < of_int b powi e" using b1 by (intro zero_less_power_int) simp
    with assms(2) show ?thesis by simp
  qed
  note i = ilog_bounds [OF assms(1) a0]
  have "of_int b powi ilog b a < (of_int b :: rat) powi (e + 1)" using i(1) assms(3) by simp
  then have "ilog b a < e + 1" by (rule powi_less_cancel [OF b1])
  moreover have "of_int b powi e < (of_int b :: rat) powi (ilog b a + 1)" using i(2) assms(2) by simp
  then have "e < ilog b a + 1" by (rule powi_less_cancel [OF b1])
  ultimately show ?thesis by simp
qed

lemma ilog_mono:
  assumes "2 \<le> b" "0 < a" "a \<le> c"
  shows "ilog b a \<le> ilog b c"
proof -
  have b1: "(1::rat) < of_int b" using assms(1) by simp
  have c0: "0 < c" using assms(2,3) by simp
  have "of_int b powi ilog b a < (of_int b :: rat) powi (ilog b c + 1)"
    using ilog_bounds(1) [OF assms(1,2)] ilog_bounds(2) [OF assms(1) c0] assms(3) by simp
  then have "ilog b a < ilog b c + 1" by (rule powi_less_cancel [OF b1])
  then show ?thesis by simp
qed

subsection \<open>Rounding to the nearest binary64 value\<close>

lemma rne_of_int [simp]: "rne (of_int n) = n"
  by (simp add: rne_def)

lemma rne_bounds: "\<lfloor>x\<rfloor> \<le> rne x" "rne x \<le> \<lfloor>x\<rfloor> + 1"
  by (simp_all add: rne_def Let_def)

lemma rne_mono:
  assumes "x \<le> y"
  shows "rne x \<le> rne y"
proof (cases "\<lfloor>x\<rfloor> = \<lfloor>y\<rfloor>")
  case True
  have "x - of_int \<lfloor>y\<rfloor> \<le> y - of_int \<lfloor>y\<rfloor>" using assms by simp
  then show ?thesis unfolding rne_def Let_def True by auto
next
  case False
  with floor_mono [OF assms] have "\<lfloor>x\<rfloor> + 1 \<le> \<lfloor>y\<rfloor>" by simp
  with rne_bounds(2) [of x] rne_bounds(1) [of y] show ?thesis by simp
qed

lemma rne_ge: "of_int n \<le> x \<Longrightarrow> n \<le> rne x"
  using rne_mono [of "of_int n" x] by simp

lemma rne_le: "x \<le> of_int n \<Longrightarrow> rne x \<le> n"
  using rne_mono [of x "of_int n"] by simp

lemma fl_pos_eq: "0 < x \<Longrightarrow> fl x = of_int (rne (x / 2 powi qexp x)) * 2 powi qexp x"
  by (simp add: fl_def Let_def)

lemma fl_0 [simp]: "fl 0 = 0"
  by (simp add: fl_def)

lemma fl_minus: "fl (- x) = - fl x"
  by (simp add: fl_def Let_def)

lemma p2_pos [simp]: "(0::rat) < 2 powi q"
  by simp

lemma rne_nonneg: "0 \<le> x \<Longrightarrow> 0 \<le> rne x"
  using rne_ge [of 0 x] by simp

lemma fl_nonneg: "0 \<le> x \<Longrightarrow> 0 \<le> fl x"
  by (cases "x = 0") (simp_all add: fl_pos_eq rne_nonneg)

lemma qexp_mono: "0 < a \<Longrightarrow> a \<le> b \<Longrightarrow> qexp a \<le> qexp b"
  using ilog_mono [of 2 a b] by (simp add: qexp_def)

lemma p2_add: "(2::rat) powi (m + n) = 2 powi m * 2 powi n"
  by (rule power_int_add) simp

lemma p2_diff: "(2::rat) powi (m - n) = 2 powi m / 2 powi n"
  by (rule power_int_diff) simp

text \<open>The scaled magnitude is below \<open>2^53\<close>, and at least \<open>2^52\<close> for a normal number.\<close>

lemma scaled_upper:
  assumes "0 < x"
  shows "x / 2 powi qexp x < 2 ^ 53"
proof -
  have "x < 2 powi (ilog 2 x + 1)" using ilog_bounds(2) [of 2 x] assms by simp
  also have "\<dots> \<le> 2 powi (qexp x + 53)"
    by (intro power_int_increasing) (simp_all add: qexp_def)
  also have "\<dots> = 2 powi qexp x * 2 ^ 53" by (simp add: p2_add)
  finally show ?thesis by (simp add: divide_less_eq mult.commute)
qed

lemma scaled_lower:
  assumes "0 < x" "- 1022 \<le> ilog 2 x"
  shows "2 ^ 52 \<le> x / 2 powi qexp x"
proof -
  have q: "qexp x + 52 = ilog 2 x" using assms(2) by (simp add: qexp_def)
  have "2 powi qexp x * 2 ^ 52 = (2::rat) powi (qexp x + 52)" by (simp add: p2_add)
  also have "\<dots> \<le> x" unfolding q using ilog_bounds(1) [of 2 x] assms by simp
  finally show ?thesis by (simp add: le_divide_eq mult.commute)
qed

lemma fl_upper:
  assumes "0 < x"
  shows "fl x \<le> 2 powi (qexp x + 53)"
proof -
  have "x / 2 powi qexp x \<le> of_int (2 ^ 53)" using scaled_upper [OF assms] by simp
  then have "rne (x / 2 powi qexp x) \<le> 2 ^ 53" by (rule rne_le)
  then have "(of_int (rne (x / 2 powi qexp x)) :: rat) \<le> 2 ^ 53"
    by (metis of_int_le_iff of_int_numeral of_int_power)
  then have "of_int (rne (x / 2 powi qexp x)) * 2 powi qexp x \<le> 2 ^ 53 * (2::rat) powi qexp x"
    by (intro mult_right_mono) simp_all
  then show ?thesis by (simp add: fl_pos_eq [OF assms] p2_add mult.commute)
qed

lemma fl_lower:
  assumes "0 < x" "- 1022 \<le> ilog 2 x"
  shows "2 powi (qexp x + 52) \<le> fl x"
proof -
  have "of_int (2 ^ 52) \<le> x / 2 powi qexp x" using scaled_lower [OF assms] by simp
  then have "2 ^ 52 \<le> rne (x / 2 powi qexp x)" by (rule rne_ge)
  then have "(2 ^ 52 :: rat) \<le> of_int (rne (x / 2 powi qexp x))"
    by (metis of_int_le_iff of_int_numeral of_int_power)
  then have "2 ^ 52 * (2::rat) powi qexp x \<le> of_int (rne (x / 2 powi qexp x)) * 2 powi qexp x"
    by (intro mult_right_mono) simp_all
  then show ?thesis by (simp add: fl_pos_eq [OF assms(1)] p2_add mult.commute)
qed

lemma fl_mono_pos:
  assumes "0 < a" "a \<le> b"
  shows "fl a \<le> fl b"
proof -
  have b0: "0 < b" using assms by simp
  note q = qexp_mono [OF assms]
  show ?thesis
  proof (cases "qexp a = qexp b")
    case True
    have "a / 2 powi qexp b \<le> b / 2 powi qexp b"
      using assms(2) by (intro divide_right_mono) simp_all
    then have "rne (a / 2 powi qexp b) \<le> rne (b / 2 powi qexp b)" by (rule rne_mono)
    then show ?thesis
      by (simp add: fl_pos_eq [OF assms(1)] fl_pos_eq [OF b0] True)
  next
    case False
    with q have lt: "qexp a + 1 \<le> qexp b" by simp
    then have "- 1022 \<le> ilog 2 b" by (simp add: qexp_def)
    note lo = fl_lower [OF b0 this]
    have "fl a \<le> 2 powi (qexp a + 53)" by (rule fl_upper [OF assms(1)])
    also have "\<dots> \<le> 2 powi (qexp b + 52)"
      using lt by (intro power_int_increasing) simp_all
    also note lo
    finally show ?thesis .
  qed
qed

lemma fl_mono:
  assumes "a \<le> b"
  shows "fl a \<le> fl b"
proof -
  consider "0 < a" | "a \<le> 0" "0 \<le> b" | "b < 0" by linarith
  then show ?thesis
  proof cases
    case 1
    then show ?thesis using assms by (rule fl_mono_pos)
  next
    case 2
    have "fl a \<le> 0" using fl_nonneg [of "- a"] 2(1) by (simp add: fl_minus)
    also have "0 \<le> fl b" using 2(2) by (rule fl_nonneg)
    finally show ?thesis .
  next
    case 3
    then have "fl (- b) \<le> fl (- a)" using assms by (intro fl_mono_pos) simp_all
    then show ?thesis by (simp add: fl_minus)
  qed
qed

lemma fl_int_scaled:
  assumes "0 < y" "y / 2 powi qexp y = of_int n"
  shows "fl y = y"
proof -
  have "y / 2 powi qexp y * 2 powi qexp y = y" by simp
  then have "of_int n * 2 powi qexp y = y" by (simp only: assms(2))
  then show ?thesis by (simp add: fl_pos_eq [OF assms(1)] assms(2))
qed

lemma fl_idem_pos:
  assumes "0 < x"
  shows "fl (fl x) = fl x"
proof -
  define q where "q = qexp x"
  define n where "n = rne (x / 2 powi q)"
  define y where "y = fl x"
  have y: "y = of_int n * 2 powi q" by (simp add: y_def n_def q_def fl_pos_eq [OF assms])
  have n53: "n \<le> 2 ^ 53"
  proof -
    have "x / 2 powi q \<le> of_int (2 ^ 53)" using scaled_upper [OF assms] by (simp add: q_def)
    then show ?thesis unfolding n_def by (rule rne_le)
  qed
  have n0: "0 \<le> n" unfolding n_def using assms by (intro rne_nonneg) simp
  show ?thesis
  proof (cases "n = 0")
    case True
    then show ?thesis using y by (simp add: y_def [symmetric])
  next
    case False
    with n0 have n1: "0 < n" by simp
    then have y0: "0 < y" by (simp add: y)
    show ?thesis
    proof (cases "n = 2 ^ 53")
      case True
      have yp: "y = 2 powi (q + 53)" by (simp add: y True p2_add mult.commute)
      have "ilog 2 y = q + 53"
        unfolding yp by (rule ilog_unique) (simp_all add: power_int_strict_increasing)
      moreover have "- 1022 \<le> q + 52" by (simp add: q_def qexp_def)
      ultimately have qy: "qexp y = q + 1" by (simp add: qexp_def)
      have "y / 2 powi qexp y = y / 2 powi (q + 1)" by (simp only: qy)
      also have "\<dots> = 2 powi (q + 53 - (q + 1))" by (simp only: yp p2_diff)
      also have "\<dots> = of_int (2 ^ 52)" by simp
      finally have "fl y = y" by (rule fl_int_scaled [OF y0])
      then show ?thesis by (simp add: y_def)
    next
      case False
      with n53 have lt: "n < 2 ^ 53" by simp
      then have "(of_int n :: rat) < 2 ^ 53"
        by (metis of_int_less_iff of_int_numeral of_int_power)
      then have "of_int n * 2 powi q < 2 ^ 53 * (2::rat) powi q"
        by (intro mult_strict_right_mono) simp_all
      then have up: "y < 2 powi (q + 53)" by (simp add: y p2_add mult.commute)
      have "2 powi ilog 2 y \<le> y" using ilog_bounds(1) [of 2 y] y0 by simp
      with up have "(2::rat) powi ilog 2 y < 2 powi (q + 53)" by simp
      then have i1: "ilog 2 y < q + 53" by (rule powi_less_cancel [rotated]) simp
      have i2: "max (ilog 2 y) (- 1022) = q + 52"
      proof (cases "- 1022 \<le> ilog 2 x")
        case True
        then have qe: "q + 52 = ilog 2 x" by (simp add: q_def qexp_def)
        have "2 powi (q + 52) \<le> y"
          using fl_lower [OF assms True] by (simp add: y_def q_def)
        moreover have "y < 2 powi (ilog 2 y + 1)" using ilog_bounds(2) [of 2 y] y0 by simp
        ultimately have "(2::rat) powi (q + 52) < 2 powi (ilog 2 y + 1)" by simp
        then have "q + 52 < ilog 2 y + 1" by (rule powi_less_cancel [rotated]) simp
        with i1 True qe show ?thesis by simp
      next
        case False
        then have "q + 52 = - 1022" by (simp add: q_def qexp_def)
        with i1 show ?thesis by simp
      qed
      have qy: "qexp y = q" using i2 by (simp add: qexp_def)
      have "y / 2 powi qexp y = y / 2 powi q" by (simp only: qy)
      also have "\<dots> = of_int n" by (simp add: y)
      finally have "y / 2 powi qexp y = of_int n" .
      then have "fl y = y" by (rule fl_int_scaled [OF y0])
      then show ?thesis by (simp add: y_def)
    qed
  qed
qed

lemma fl_idem [simp]: "fl (fl x) = fl x"
proof -
  consider "0 < x" | "x = 0" | "x < 0" by linarith
  then show ?thesis
  proof cases
    case 1
    then show ?thesis by (rule fl_idem_pos)
  next
    case 2
    then show ?thesis by simp
  next
    case 3
    then have "fl (fl (- x)) = fl (- x)" by (intro fl_idem_pos) simp
    then show ?thesis by (simp add: fl_minus)
  qed
qed

lemma fl_of_int_pos:
  assumes "0 < n" "n < 2 ^ 53"
  shows "fl (of_int n) = of_int n"
proof -
  let ?x = "of_int n :: rat"
  have x0: "0 < ?x" using assms(1) by simp
  have "(2::rat) powi ilog 2 ?x \<le> ?x" using ilog_bounds(1) [of 2 ?x] x0 by simp
  also have "?x < of_int (2 ^ 53)" using assms(2) by (simp only: of_int_less_iff)
  finally have "(2::rat) powi ilog 2 ?x < 2 powi 53" by simp
  then have "ilog 2 ?x < 53" by (rule powi_less_cancel [rotated]) simp
  then have q: "qexp ?x \<le> 0" by (simp add: qexp_def)
  define k where "k = nat (- qexp ?x)"
  have "(2::rat) powi qexp ?x = 2 powi (- int k)" using q by (simp add: k_def)
  also have "\<dots> = 1 / 2 ^ k" by (simp add: power_int_minus_divide)
  finally have "?x / 2 powi qexp ?x = of_int (n * 2 ^ k)" by simp
  then show ?thesis by (rule fl_int_scaled [OF x0])
qed

lemma fl_of_int: "\<bar>n\<bar> < 2 ^ 53 \<Longrightarrow> fl (of_int n) = of_int n"
proof -
  assume a: "\<bar>n\<bar> < 2 ^ 53"
  consider "0 < n" | "n = 0" | "n < 0" by linarith
  then show ?thesis
  proof cases
    case 1
    with a show ?thesis by (intro fl_of_int_pos) simp_all
  next
    case 2
    then show ?thesis by simp
  next
    case 3
    with a have "fl (of_int (- n)) = of_int (- n)" by (intro fl_of_int_pos) simp_all
    then show ?thesis by (simp add: fl_minus)
  qed
qed

subsection \<open>The shortest decimal\<close>

lemma double_scaled:
  assumes "fl x = x" "0 < x"
  shows "x = of_int (rne (x / 2 powi qexp x)) * 2 powi qexp x"
  using fl_pos_eq [OF assms(2)] assms(1) by simp

lemma p10_pos [simp]: "(0::rat) < 10 powi e"
  by simp

lemma exact_value:
  assumes "fl x = x" "0 < x" "exact x = (s, e)"
  shows "of_int s * 10 powi e = x" "0 < s"
proof -
  define q where "q = qexp x"
  define n where "n = rne (x / 2 powi q)"
  have x: "x = of_int n * 2 powi q"
    using double_scaled [OF assms(1,2)] by (simp add: n_def q_def)
  have n0: "0 < n"
  proof (rule ccontr)
    assume "\<not> 0 < n"
    then have "of_int n * (2::rat) powi q \<le> 0"
      by (intro mult_nonpos_nonneg) simp_all
    with x assms(2) show False by simp
  qed
  have sc: "\<lfloor>x / 2 powi q\<rfloor> = n"
  proof -
    have "x / 2 powi q = of_int n" by (subst x) simp
    then show ?thesis by simp
  qed
  have "of_int s * 10 powi e = x \<and> 0 < s"
  proof (cases "0 \<le> q")
    case True
    then have "(2::rat) powi q = of_int (2 ^ nat q)" by (simp add: power_int_nonneg_exp)
    then have xi: "x = of_int (n * 2 ^ nat q)" unfolding x by simp
    have "\<lfloor>x\<rfloor> = n * 2 ^ nat q" by (subst xi) (simp only: floor_of_int)
    moreover have "s = \<lfloor>x\<rfloor>" "e = 0"
      using assms(3) True by (simp_all add: exact_def Let_def q_def [symmetric])
    ultimately show ?thesis using xi n0 by simp
  next
    case False
    define k where "k = nat (- q)"
    have qk: "q = - int k" using False by (simp add: k_def)
    have se: "s = n * 5 ^ k" "e = q"
      using assms(3) False sc by (auto simp add: exact_def Let_def q_def [symmetric] k_def)
    have "of_int s * 10 powi e = of_int n * (5 ^ k / 10 ^ k :: rat)"
      by (simp add: se qk power_int_minus_divide)
    also have "(5 ^ k / 10 ^ k :: rat) = 1 / 2 ^ k"
    proof -
      have "(10::rat) ^ k = 5 ^ k * 2 ^ k" by (simp flip: power_mult_distrib)
      then show ?thesis by simp
    qed
    also have "of_int n * (1 / 2 ^ k :: rat) = x"
      by (subst x) (simp add: qk power_int_minus_divide)
    finally show ?thesis using n0 by (simp add: se)
  qed
  then show "of_int s * 10 powi e = x" "0 < s" by simp_all
qed

lemma search_value:
  assumes "fl x = x" "0 < x"
  shows "search x m k fuel = (s, e) \<Longrightarrow> fl (of_int s * 10 powi e) = x \<and> 0 < s"
proof (induction fuel arbitrary: k)
  case 0
  then have "exact x = (s, e)" by simp
  from exact_value [OF assms this] assms(1) show ?case by simp
next
  case (Suc fuel)
  define u :: rat where "u = 10 powi (m - int k)"
  define lo where "lo = \<lfloor>x / u\<rfloor>"
  have u0: "0 < u" by (simp add: u_def)
  have lo0: "0 \<le> lo" unfolding lo_def using assms(2) u0 by simp
  have pos: "0 < lo" if "fl (of_int lo * u) = x"
  proof (rule ccontr)
    assume "\<not> 0 < lo"
    with lo0 have "lo = 0" by simp
    with that assms(2) show False by simp
  qed
  consider (both) "fl (of_int lo * u) = x" "fl (of_int (lo + 1) * u) = x"
    | (below) "fl (of_int lo * u) = x" "fl (of_int (lo + 1) * u) \<noteq> x"
    | (above) "fl (of_int lo * u) \<noteq> x" "fl (of_int (lo + 1) * u) = x"
    | (none) "fl (of_int lo * u) \<noteq> x" "fl (of_int (lo + 1) * u) \<noteq> x"
    by blast
  then show ?case
  proof cases
    case both
    with Suc.prems have "(s, e) = (lo, m - int k) \<or> (s, e) = (lo + 1, m - int k)"
      by (simp add: Let_def u_def [symmetric] lo_def [symmetric] split: if_splits)
    with both pos lo0 show ?thesis by (auto simp: u_def)
  next
    case below
    with Suc.prems have "(s, e) = (lo, m - int k)"
      by (simp add: Let_def u_def [symmetric] lo_def [symmetric])
    with below pos show ?thesis by (auto simp: u_def)
  next
    case above
    with Suc.prems have "(s, e) = (lo + 1, m - int k)"
      by (simp add: Let_def u_def [symmetric] lo_def [symmetric])
    with above lo0 show ?thesis by (auto simp: u_def)
  next
    case none
    with Suc.prems have "search x m (Suc k) fuel = (s, e)"
      by (simp add: Let_def u_def [symmetric] lo_def [symmetric])
    then show ?thesis by (rule Suc.IH)
  qed
qed

lemma shortest_value:
  assumes "fl x = x" "0 < x" "shortest x = (s, e)"
  shows "fl (of_int s * 10 powi e) = x" "0 < s"
  using search_value [OF assms(1,2), of "ilog 10 x + 1" 1 17 s e] assms(2,3)
  by (simp_all add: shortest_def)

lemma search_int:
  assumes "0 < n" "n < 10 ^ 15" "10 powi (m - 1) \<le> (of_int n :: rat)"
  shows "0 < k \<Longrightarrow> int k \<le> m \<Longrightarrow> m - int k < int fuel \<Longrightarrow>
         search (of_int n) m k fuel = (s, e) \<Longrightarrow> of_int s * 10 powi e = (of_int n :: rat)"
proof (induction fuel arbitrary: k)
  case 0
  then show ?case by simp
next
  case (Suc fuel)
  let ?x = "of_int n :: rat"
  define j where "j = nat (m - int k)"
  have mk: "m - int k = int j" using Suc.prems(2) by (simp add: j_def)
  define u :: rat where "u = 10 powi (m - int k)"
  have ui: "u = of_int (10 ^ j)" by (simp add: u_def mk)
  define lo where "lo = \<lfloor>?x / u\<rfloor>"
  have lo_div: "lo = n div 10 ^ j"
    unfolding lo_def ui by (rule floor_divide_of_int_eq)
  have lo0: "0 \<le> lo" unfolding lo_div using assms(1) by (simp add: pos_imp_zdiv_nonneg_iff)
  have lou: "lo * 10 ^ j \<le> n"
  proof -
    have "n div 10 ^ j * 10 ^ j + n mod 10 ^ j = n" by (rule div_mult_mod_eq)
    moreover have "0 \<le> n mod 10 ^ j" by simp
    ultimately show ?thesis unfolding lo_div by linarith
  qed
  have "u \<le> 10 powi (m - 1)" unfolding u_def
    using Suc.prems(1) by (intro power_int_increasing) simp_all
  with assms(3) have "u \<le> of_int n" by linarith
  then have "of_int (10 ^ j) \<le> (of_int n :: rat)" unfolding ui .
  then have un: "(10::int) ^ j \<le> n" by (simp only: of_int_le_iff)
  have e1: "fl (of_int lo * u) = of_int (lo * 10 ^ j)"
  proof -
    have "\<bar>lo * 10 ^ j\<bar> < 2 ^ 53" using lou lo0 assms(2) by (simp add: abs_mult)
    then have "fl (of_int (lo * 10 ^ j)) = of_int (lo * 10 ^ j)" by (rule fl_of_int)
    then show ?thesis by (simp add: ui)
  qed
  have e2: "fl (of_int (lo + 1) * u) = of_int ((lo + 1) * 10 ^ j)"
  proof -
    have "(lo + 1) * 10 ^ j = lo * 10 ^ j + 10 ^ j" by (simp add: algebra_simps)
    with lou un have "(lo + 1) * 10 ^ j \<le> 2 * n" by simp
    moreover have "0 \<le> (lo + 1) * 10 ^ j" using lo0 by simp
    ultimately have "\<bar>(lo + 1) * 10 ^ j\<bar> < 2 ^ 53" using assms(2) by simp
    then have "fl (of_int ((lo + 1) * 10 ^ j)) = of_int ((lo + 1) * 10 ^ j)" by (rule fl_of_int)
    then show ?thesis by (simp add: ui)
  qed
  have v1: "of_int lo * 10 powi (m - int k) = ?x" if "fl (of_int lo * u) = ?x"
    using that e1 by (simp add: u_def [symmetric] ui)
  have v2: "of_int (lo + 1) * 10 powi (m - int k) = ?x" if "fl (of_int (lo + 1) * u) = ?x"
    using that e2 by (simp add: u_def [symmetric] ui)
  consider (found) "fl (of_int lo * u) = ?x \<or> fl (of_int (lo + 1) * u) = ?x"
    | (none) "fl (of_int lo * u) \<noteq> ?x" "fl (of_int (lo + 1) * u) \<noteq> ?x"
    by blast
  then show ?case
  proof cases
    case found
    with Suc.prems(4) have
      "(s, e) = (lo, m - int k) \<and> fl (of_int lo * u) = ?x \<or>
       (s, e) = (lo + 1, m - int k) \<and> fl (of_int (lo + 1) * u) = ?x"
      by (simp add: Let_def u_def [symmetric] lo_def [symmetric] split: if_splits)
    with v1 v2 show ?thesis by auto
  next
    case none
    have "int k \<noteq> m"
    proof
      assume "int k = m"
      then have "j = 0" by (simp add: j_def)
      then have "lo = n" "u = 1" by (simp_all add: lo_div ui)
      with none(1) e1 \<open>j = 0\<close> show False by simp
    qed
    with Suc.prems(2,3) have k: "int (Suc k) \<le> m" "m - int (Suc k) < int fuel" by simp_all
    from none Suc.prems(4) have "search ?x m (Suc k) fuel = (s, e)"
      by (simp add: Let_def u_def [symmetric] lo_def [symmetric])
    from Suc.IH [OF _ k this] show ?thesis by simp
  qed
qed

lemma shortest_int:
  assumes "0 < n" "n < 10 ^ 15" "shortest (of_int n) = (s, e)"
  shows "of_int s * 10 powi e = (of_int n :: rat)"
proof -
  let ?x = "of_int n :: rat"
  have x0: "0 < ?x" using assms(1) by simp
  define m where "m = ilog 10 ?x + 1"
  note b = ilog_bounds [of 10 ?x, OF _ x0]
  have lo: "10 powi (m - 1) \<le> ?x" using b(1) by (simp add: m_def)
  have "?x < of_int (10 ^ 15)" using assms(2) by (simp only: of_int_less_iff)
  with b(1) have "(10::rat) powi ilog 10 ?x < 10 powi 15" by simp
  then have m15: "m \<le> 15" unfolding m_def using powi_less_cancel [of 10 "ilog 10 ?x" 15] by simp
  have "(1::rat) \<le> ?x" using assms(1) by simp
  with b(2) have "(10::rat) powi 0 < 10 powi (ilog 10 ?x + 1)" by simp
  then have m1: "1 \<le> m" unfolding m_def using powi_less_cancel [of 10 0 "ilog 10 ?x + 1"] by simp
  have "search ?x m 1 17 = (s, e)" using assms(1,3) by (simp add: shortest_def m_def)
  from search_int [OF assms(1,2) lo _ _ _ this] m1 m15 show ?thesis by simp
qed

section \<open>Facts about the built-ins\<close>

subsection \<open>Digits and the numbers they denote\<close>

lemma digit_cases: "0 \<le> d \<Longrightarrow> d < 10 \<Longrightarrow> d \<in> {0,1,2,3,4,5,6,7,8,9::int}"
  by (simp; arith)

lemma digit_val_char: "0 \<le> d \<Longrightarrow> d < 10 \<Longrightarrow> digit_val (digit_char d) = d"
  by (drule (1) digit_cases) (auto simp: digit_val_def digit_char_def)

lemma is_digit_char: "d < 10 \<Longrightarrow> is_digit (digit_char d)"
proof (cases "d < 0")
  case True
  then show ?thesis by (simp add: is_digit_def digit_char_def)
next
  case False
  assume "d < 10"
  with False have "d \<in> {0,1,2,3,4,5,6,7,8,9::int}" by (intro digit_cases) simp_all
  then show ?thesis by (auto simp: is_digit_def digit_char_def)
qed

lemma digit_val_range: "0 \<le> digit_val c"
  by (simp add: digit_val_def)

lemma digit_char_zero_iff: "0 \<le> d \<Longrightarrow> d < 10 \<Longrightarrow> digit_char d = CHR ''0'' \<longleftrightarrow> d = 0"
  by (drule (1) digit_cases) (auto simp: digit_char_def)

lemma not_digit_misc [simp]:
  "\<not> is_digit CHR ''.''" "\<not> is_digit CHR ''e''" "\<not> is_digit CHR ''-''" "\<not> is_digit CHR ''+''"
  "\<not> is_space CHR ''-''"
  by (simp_all add: is_digit_def is_space_def)

lemma digit_not_misc:
  "is_digit c \<Longrightarrow> \<not> is_space c \<and> c \<noteq> CHR ''-'' \<and> c \<noteq> CHR ''+'' \<and> c \<noteq> CHR ''.'' \<and> c \<noteq> CHR ''e'' \<and> c \<noteq> CHR ''E''"
  by (auto simp: is_digit_def is_space_def)

lemma dec_digits: "\<forall>c \<in> set (dec n). is_digit c"
  by (induction n rule: dec.induct) (subst dec.simps, simp add: is_digit_char)

lemma dec_nonempty: "dec n \<noteq> []"
  by (subst dec.simps) simp

lemma num_Nil [simp]: "num [] = 0"
  by (simp add: num_def)

lemma num_snoc [simp]: "num (ds @ [c]) = 10 * num ds + digit_val c"
  by (simp add: num_def)

lemma num_single [simp]: "num [c] = digit_val c"
  by (simp add: num_def)

lemma num_append: "num (xs @ ys) = num xs * 10 ^ length ys + num ys"
  by (induction ys rule: rev_induct) (simp_all add: append_assoc [symmetric] del: append_assoc)

lemma num_Cons: "num (d # b) = digit_val d * 10 ^ length b + num b"
  using num_append [of "[d]" b] by simp

lemma num_dec: "0 \<le> n \<Longrightarrow> num (dec n) = n"
proof (induction n rule: dec.induct)
  case (1 n)
  show ?case
  proof (cases "n < 10")
    case True
    with 1(2) show ?thesis by (subst dec.simps) (simp add: digit_val_char)
  next
    case False
    then have "num (dec (n div 10)) = n div 10" using 1 by simp
    with False show ?thesis by (subst dec.simps) (simp add: digit_val_char)
  qed
qed

lemma length_dec_pos: "0 < length (dec n)"
  using dec_nonempty by simp

lemma num_zeros [simp]: "num (replicate k CHR ''0'') = 0"
proof (induction k)
  case 0
  show ?case by simp
next
  case (Suc k)
  have "replicate (Suc k) CHR ''0'' = replicate k CHR ''0'' @ [CHR ''0'']"
    by (simp add: replicate_append_same)
  then show ?case using Suc by (simp add: digit_val_def del: replicate.simps)
qed

lemma num_nonneg: "0 \<le> num ds"
  by (induction ds rule: rev_induct) (use digit_val_range in \<open>auto simp: add_nonneg_nonneg\<close>)


subsection \<open>Parsing\<close>

lemma takeWhile_digits: "\<forall>c \<in> set a. is_digit c \<Longrightarrow> \<not> is_digit x \<Longrightarrow> takeWhile is_digit (a @ x # r) = a"
  by (simp add: takeWhile_append2)

lemma dropWhile_digits: "\<forall>c \<in> set a. is_digit c \<Longrightarrow> \<not> is_digit x \<Longrightarrow> dropWhile is_digit (a @ x # r) = x # r"
  by (simp add: dropWhile_append2)

lemma takeWhile_all_digits: "\<forall>c \<in> set a. is_digit c \<Longrightarrow> takeWhile is_digit a = a"
  by (simp add: takeWhile_eq_all_conv)

lemma dropWhile_all_digits: "\<forall>c \<in> set a. is_digit c \<Longrightarrow> dropWhile is_digit a = []"
  by simp

lemma parse_exponent_Nil [simp]: "parse_exponent [] = 0"
  by (simp add: parse_exponent_def)

lemma parse_exponent_plus: "0 \<le> e \<Longrightarrow> parse_exponent (''e+'' @ dec e) = e"
  using dec_nonempty [of e]
  by (simp add: parse_exponent_def takeWhile_all_digits dec_digits num_dec)

lemma pow10_0 [simp]: "pow10 0 = 1"
  by (simp add: pow10_def)

lemma parse_point:
  assumes "is_digit c" "\<forall>x \<in> set a. is_digit x" "\<forall>x \<in> set b. is_digit x"
  shows "parseFloat (c # a @ CHR ''.'' # b) =
      Some (Number_value False (of_int (num (c # a)) + of_int (num b) / 10 ^ length b))"
    and "parseFloat (CHR ''-'' # c # a @ CHR ''.'' # b) =
      Some (Number_value True (- (of_int (num (c # a)) + of_int (num b) / 10 ^ length b)))"
proof -
  have c: "\<not> is_space c" "c \<noteq> CHR ''-''" "c \<noteq> CHR ''+''"
    using digit_not_misc [OF assms(1)] by simp_all
  have tw: "takeWhile is_digit (c # a @ CHR ''.'' # b) = c # a"
    using takeWhile_digits [of "c # a" "CHR ''.''" b] assms by simp
  have dw: "dropWhile is_digit (c # a @ CHR ''.'' # b) = CHR ''.'' # b"
    using dropWhile_digits [of "c # a" "CHR ''.''" b] assms by simp
  have db: "dropWhile is_digit b = []" "takeWhile is_digit b = b"
    using assms(3) by (simp_all add: takeWhile_all_digits)
  have sp: "dropWhile is_space (c # r) = c # r" "dropWhile is_space (CHR ''-'' # r) = CHR ''-'' # r" for r
    using c by simp_all
  show "parseFloat (c # a @ CHR ''.'' # b) =
      Some (Number_value False (of_int (num (c # a)) + of_int (num b) / 10 ^ length b))"
    using c by (simp add: parseFloat_def sp tw dw db Let_def del: takeWhile.simps dropWhile.simps)
  show "parseFloat (CHR ''-'' # c # a @ CHR ''.'' # b) =
      Some (Number_value True (- (of_int (num (c # a)) + of_int (num b) / 10 ^ length b)))"
    using c by (simp add: parseFloat_def sp tw dw db Let_def del: takeWhile.simps dropWhile.simps)
qed


subsection \<open>The round trip through \<open>toFixed(2)\<close> and \<open>parseFloat\<close>\<close>

lemma nearest_nonneg: "0 \<le> x \<Longrightarrow> 0 \<le> nearest x"
  by (simp add: nearest_def)

lemma nearest_0 [simp]: "nearest 0 = 0"
  by (simp add: nearest_def floor_eq_iff)

lemma pad_digits:
  assumes "\<forall>c \<in> set m. is_digit c" "m \<noteq> []"
  defines "m' \<equiv> (if length m \<le> 2 then replicate (3 - length m) CHR ''0'' @ m else m)"
  defines "k \<equiv> (if length m \<le> 2 then 3 else length m)"
  shows "\<exists>c a b. take (k - 2) m' = c # a \<and> drop (k - 2) m' = b \<and> is_digit c \<and>
           (\<forall>x \<in> set a. is_digit x) \<and> (\<forall>x \<in> set b. is_digit x) \<and> length b = 2 \<and>
           num (c # a) * 100 + num b = num m"
proof -
  have len: "length m' = k" "3 \<le> k"
    using assms(2) by (auto simp: m'_def k_def)
  have dig: "\<forall>x \<in> set m'. is_digit x"
    using assms(1) by (auto simp: m'_def is_digit_def)
  have nm: "num m' = num m"
    by (simp add: m'_def num_append)
  let ?a = "take (k - 2) m'" and ?b = "drop (k - 2) m'"
  have lb: "length ?b = 2" using len by simp
  have "num m' = num (?a @ ?b)" by simp
  also have "\<dots> = num ?a * 10 ^ length ?b + num ?b" by (rule num_append)
  also have "\<dots> = num ?a * 100 + num ?b" by (simp only: lb) simp
  finally have eq0: "num ?a * 100 + num ?b = num m" using nm by simp
  have "?a \<noteq> []" using len by auto
  then obtain c a where ca: "?a = c # a" by (cases ?a) auto
  have eq: "num (c # a) * 100 + num ?b = num m" using eq0 unfolding ca .
  have da: "\<forall>x \<in> set ?a. is_digit x" using dig by (meson in_set_takeD)
  have db: "\<forall>x \<in> set ?b. is_digit x" using dig by (meson in_set_dropD)
  from ca da have "is_digit c" "\<forall>x \<in> set a. is_digit x" by auto
  with ca eq lb db show ?thesis by blast
qed

lemma hundredth_0 [simp]: "hundredth 0 = 0"
  by (simp add: hundredth_def)

lemma toFixed2_small:
  assumes "\<bar>val x\<bar> < 10 ^ 21"
  shows "parseFloat (toFixed 2 x) = Some (fix2 x)"
proof -
  define n where "n = nearest (\<bar>val x\<bar> * 100)"
  define m where "m = dec n"
  define m' where "m' = (if length m \<le> 2 then replicate (3 - length m) CHR ''0'' @ m else m)"
  define k where "k = (if length m \<le> 2 then 3 else length m)"
  have n0: "0 \<le> n" by (simp add: n_def nearest_nonneg)
  have "\<forall>c \<in> set m. is_digit c" "m \<noteq> []"
    by (simp_all add: m_def dec_digits dec_nonempty)
  from pad_digits [OF this] obtain c a b where
    ab: "take (k - 2) m' = c # a" "drop (k - 2) m' = b" "is_digit c"
      "\<forall>x \<in> set a. is_digit x" "\<forall>x \<in> set b. is_digit x" "length b = 2"
      "num (c # a) * 100 + num b = num m"
    unfolding m'_def k_def by blast
  have "toFixed 2 x =
      (if val x < 0 then ''-'' else []) @ take (k - 2) m' @ CHR ''.'' # drop (k - 2) m'"
    using assms by (simp add: toFixed_def Let_def n_def m_def m'_def k_def not_le)
  then have str: "toFixed 2 x = (if val x < 0 then ''-'' else []) @ c # a @ CHR ''.'' # b"
    unfolding ab(1,2) by simp
  have v: "(of_int (num (c # a)) + of_int (num b) / 10 ^ length b :: rat) = of_int n / 100"
  proof -
    have "num m = n" by (simp add: m_def num_dec n0)
    with ab(7) have "of_int n = (of_int (num (c # a)) * 100 + of_int (num b) :: rat)"
      by (metis of_int_add of_int_mult of_int_numeral)
    then show ?thesis using ab(6) by (simp add: field_simps)
  qed
  have fx: "fix2 x = Number_value (val x < 0) (hundredth (val x))"
    using assms by (simp add: fix2_def)
  show ?thesis
  proof (cases "val x < 0")
    case True
    then have h: "hundredth (val x) = - (of_int n / 100)" by (simp add: hundredth_def n_def)
    have "parseFloat (toFixed 2 x) = Some (Number_value True (- (of_int n / 100)))"
      using parse_point(2) [OF ab(3,4,5)] True by (simp add: str v)
    then show ?thesis unfolding fx h using True by simp
  next
    case False
    have h: "hundredth (val x) = of_int n / 100"
    proof (cases "val x = 0")
      case True
      then show ?thesis by (simp add: n_def)
    next
      case False
      with \<open>\<not> val x < 0\<close> have "0 < val x" by simp
      then show ?thesis by (simp add: hundredth_def n_def)
    qed
    have "parseFloat (toFixed 2 x) = Some (Number_value False (of_int n / 100))"
      using parse_point(1) [OF ab(3,4,5)] False by (simp add: str v)
    then show ?thesis unfolding fx h using False by simp
  qed
qed

lemma length_strip_zeros: "length (strip_zeros ds) \<le> length ds"
  by (induction ds) (auto simp: Let_def)

lemma strip_zeros_decomp:
  "strip_zeros ds @ replicate (length ds - length (strip_zeros ds)) CHR ''0'' = ds"
proof (induction ds)
  case Nil
  show ?case by simp
next
  case (Cons c cs)
  show ?case
  proof (cases "strip_zeros cs = [] \<and> c = CHR ''0''")
    case True
    with Cons show ?thesis by simp
  next
    case False
    then have "strip_zeros (c # cs) = c # strip_zeros cs" by (auto simp: Let_def)
    with Cons length_strip_zeros [of cs] show ?thesis by (simp add: Suc_diff_le)
  qed
qed

lemma strip_zeros_subset: "set (strip_zeros ds) \<subseteq> set ds"
  by (induction ds) (auto simp: Let_def)

lemma strip_zeros_Cons: "c \<noteq> CHR ''0'' \<Longrightarrow> strip_zeros (c # cs) = c # strip_zeros cs"
  by (simp add: Let_def)

lemma hd_dec: "0 < n \<Longrightarrow> hd (dec n) \<noteq> CHR ''0''"
proof (induction n rule: dec.induct)
  case (1 n)
  show ?case
  proof (cases "n < 10")
    case True
    with 1(2) show ?thesis by (subst dec.simps) (simp add: digit_char_zero_iff)
  next
    case False
    then have "hd (dec (n div 10)) \<noteq> CHR ''0''" using 1 by simp
    with False show ?thesis by (subst dec.simps) (simp add: dec_nonempty)
  qed
qed

lemma parse_exp:
  assumes "is_digit d" "\<forall>x \<in> set b. is_digit x" "0 \<le> e"
  defines "v \<equiv> (of_int (digit_val d) + of_int (num b) / 10 ^ length b) * 10 ^ nat e"
  defines "s \<equiv> d # (if b = [] then [] else CHR ''.'' # b) @ ''e+'' @ dec e"
  shows "parseFloat s = Some (Number_value False v)"
    and "parseFloat (CHR ''-'' # s) = Some (Number_value True (- v))"
proof -
  have d: "\<not> is_space d" "d \<noteq> CHR ''-''" "d \<noteq> CHR ''+''"
    using digit_not_misc [OF assms(1)] by simp_all
  have sp: "dropWhile is_space (d # r) = d # r" "dropWhile is_space (CHR ''-'' # r) = CHR ''-'' # r" for r
    using d by simp_all
  have one: "takeWhile is_digit (d # x # r) = [d]" "dropWhile is_digit (d # x # r) = x # r"
    if "\<not> is_digit x" for x r
    using that assms(1) by simp_all
  have fr: "takeWhile is_digit (b @ CHR ''e'' # r) = b" "dropWhile is_digit (b @ CHR ''e'' # r) = CHR ''e'' # r" for r
    using assms(2) by (simp_all add: takeWhile_digits dropWhile_digits)
  have ex: "pow10 (parse_exponent (CHR ''e'' # CHR ''+'' # dec e)) = 10 ^ nat e"
    using parse_exponent_plus [OF assms(3)] assms(3) by (simp add: pow10_def)
  show "parseFloat s = Some (Number_value False v)"
    using d by (cases "b = []")
      (simp_all add: s_def v_def parseFloat_def sp one fr ex Let_def del: takeWhile.simps dropWhile.simps)
  show "parseFloat (CHR ''-'' # s) = Some (Number_value True (- v))"
    using d by (cases "b = []")
      (simp_all add: s_def v_def parseFloat_def sp one fr ex Let_def del: takeWhile.simps dropWhile.simps)
qed

lemma toString_exp_value:
  assumes "0 < n"
  shows "\<exists>d b. is_digit d \<and> (\<forall>x \<in> set b. is_digit x) \<and>
           (if length (strip_zeros (dec n)) \<le> 1 then take 1 (dec n)
            else hd (strip_zeros (dec n)) # CHR ''.'' # tl (strip_zeros (dec n)))
             = d # (if b = [] then [] else CHR ''.'' # b) \<and>
           (of_int (digit_val d) + of_int (num b) / 10 ^ length b) * 10 ^ (length (dec n) - 1)
             = (of_int n :: rat)"
proof -
  obtain d r where ds: "dec n = d # r"
    using dec_nonempty [of n] by (cases "dec n") auto
  have d0: "d \<noteq> CHR ''0''" using hd_dec [OF assms] ds by simp
  define b where "b = strip_zeros r"
  have st: "strip_zeros (dec n) = d # b"
    by (simp add: ds b_def strip_zeros_Cons d0)
  have dig: "is_digit d" "\<forall>x \<in> set b. is_digit x"
    using dec_digits [of n] strip_zeros_subset [of r] by (auto simp: ds b_def)
  have lb: "length b \<le> length r" by (simp add: b_def length_strip_zeros)
  have "strip_zeros (dec n) @ replicate (length (dec n) - length (strip_zeros (dec n))) CHR ''0'' = dec n"
    by (rule strip_zeros_decomp)
  then have "(d # b) @ replicate (length r - length b) CHR ''0'' = dec n"
    unfolding st by (simp add: ds)
  then have "num (dec n) = num ((d # b) @ replicate (length r - length b) CHR ''0'')"
    by simp
  also have "\<dots> = num (d # b) * 10 ^ (length r - length b)"
    by (simp only: num_append) simp
  also have "\<dots> = (digit_val d * 10 ^ length b + num b) * 10 ^ (length r - length b)"
    by (simp only: num_Cons)
  finally have "n = (digit_val d * 10 ^ length b + num b) * 10 ^ (length r - length b)"
    using assms by (simp add: num_dec)
  then have "(of_int n :: rat) =
      of_int ((digit_val d * 10 ^ length b + num b) * 10 ^ (length r - length b))"
    by (rule arg_cong)
  also have "\<dots> =
      (of_int (digit_val d) * 10 ^ length b + of_int (num b)) * 10 ^ (length r - length b)"
    by simp
  also have "\<dots> = (of_int (digit_val d) + of_int (num b) / 10 ^ length b) *
      (10 ^ length b * 10 ^ (length r - length b))"
    by (simp add: field_simps)
  also have "(10::rat) ^ length b * 10 ^ (length r - length b) = 10 ^ length r"
    using lb by (simp add: power_add [symmetric])
  finally have val: "(of_int (digit_val d) + of_int (num b) / 10 ^ length b) * 10 ^ (length (dec n) - 1)
             = (of_int n :: rat)"
    by (simp add: ds)
  have "(if length (strip_zeros (dec n)) \<le> 1 then take 1 (dec n)
            else hd (strip_zeros (dec n)) # CHR ''.'' # tl (strip_zeros (dec n)))
             = d # (if b = [] then [] else CHR ''.'' # b)"
    unfolding st by (simp add: ds)
  with dig val show ?thesis by blast
qed

lemma dec_bound: "0 \<le> n \<Longrightarrow> n < 10 ^ length (dec n)"
proof (induction n rule: dec.induct)
  case (1 n)
  show ?case
  proof (cases "n < 10")
    case True
    then show ?thesis by (subst dec.simps) simp
  next
    case False
    with 1 have "n div 10 < 10 ^ length (dec (n div 10))" by simp
    then have "n div 10 + 1 \<le> 10 ^ length (dec (n div 10))" by simp
    then have "(n div 10 + 1) * 10 \<le> 10 ^ length (dec (n div 10)) * 10" by simp
    moreover have "n < (n div 10 + 1) * 10"
    proof -
      have "n div 10 * 10 + n mod 10 = n" by (rule div_mult_mod_eq)
      moreover have "n mod 10 < 10" by simp
      moreover have "(n div 10 + 1) * 10 = n div 10 * 10 + 10" by (simp add: algebra_simps)
      ultimately show ?thesis by linarith
    qed
    ultimately have "n < 10 ^ length (dec (n div 10)) * 10" by simp
    with False show ?thesis by (subst dec.simps) (simp add: mult.commute)
  qed
qed

lemma Number_value_double:
  "fl r = r \<Longrightarrow> r \<noteq> 0 \<Longrightarrow> Number_value neg r = Num r"
  by (simp add: Number_value_def)

lemma toFixed2_big:
  assumes "10 ^ 21 \<le> \<bar>val x\<bar>" "fl (val x) = val x"
  shows "parseFloat (toFixed 2 x) = Some x"
proof -
  define a where "a = \<bar>val x\<bar>"
  obtain n e where se: "shortest a = (n, e)" by (cases "shortest a") auto
  have a0: "0 < a" using assms(1) by (simp add: a_def)
  have fa: "fl a = a"
    using assms(2) fl_minus [of "val x"] by (cases "val x < 0") (simp_all add: a_def)
  note sv = shortest_value [OF fa a0 se]
  define v :: rat where "v = of_int n * 10 powi e"
  have fv: "fl v = a" using sv(1) by (simp add: v_def)
  have v1: "1 \<le> v"
  proof (rule ccontr)
    assume "\<not> 1 \<le> v"
    then have "fl v \<le> fl 1" by (intro fl_mono) simp
    moreover have "fl 1 = 1" using fl_of_int [of 1] by simp
    ultimately show False using fv assms(1) by (simp add: a_def)
  qed
  define L where "L = length (dec n)"
  define E where "E = e + int L - 1"
  have E0: "0 \<le> E"
  proof -
    have "n < 10 ^ L" unfolding L_def using sv(2) by (intro dec_bound) simp
    then have "(of_int n :: rat) < of_int (10 ^ L)" by (simp only: of_int_less_iff)
    then have "of_int n * 10 powi e < of_int (10 ^ L) * (10::rat) powi e"
      by (intro mult_strict_right_mono) simp_all
    also have "of_int (10 ^ L) * (10::rat) powi e = 10 powi (int L + e)"
      by (simp add: power_int_add)
    finally have "(10::rat) powi 0 < 10 powi (int L + e)" using v1 by (simp add: v_def)
    then have "0 < int L + e" by (rule powi_less_cancel [rotated]) simp
    then show ?thesis by (simp add: E_def)
  qed
  from toString_exp_value [OF sv(2)] obtain d b where
    db: "is_digit d" "\<forall>x \<in> set b. is_digit x"
      "(if length (strip_zeros (dec n)) \<le> 1 then take 1 (dec n)
            else hd (strip_zeros (dec n)) # CHR ''.'' # tl (strip_zeros (dec n)))
             = d # (if b = [] then [] else CHR ''.'' # b)"
      "(of_int (digit_val d) + of_int (num b) / 10 ^ length b) * 10 ^ (length (dec n) - 1)
             = (of_int n :: rat)"
    by blast
  define X :: rat where "X = of_int (digit_val d) + of_int (num b) / 10 ^ length b"
  have L1: "0 < L" unfolding L_def by (rule length_dec_pos)
  have "v = X * 10 ^ (L - 1) * 10 powi e" using db(4) by (simp add: v_def X_def L_def)
  also have "\<dots> = X * (10 powi int (L - 1) * 10 powi e)" by simp
  also have "10 powi int (L - 1) * 10 powi e = (10::rat) powi (int (L - 1) + e)"
    by (simp add: power_int_add)
  also have "int (L - 1) + e = E" using L1 by (simp add: E_def)
  also have "(10::rat) powi E = 10 ^ nat E" using E0 by (simp add: power_int_nonneg_exp)
  finally have vX: "X * 10 ^ nat E = v" by simp
  have "toFixed 2 x = (if val x < 0 then ''-'' else []) @
      (if length (strip_zeros (dec n)) \<le> 1 then take 1 (dec n)
            else hd (strip_zeros (dec n)) # CHR ''.'' # tl (strip_zeros (dec n)))
      @ ''e+'' @ dec E"
    using assms(1)
    by (simp add: toFixed_def Number_toString_exp_def Let_def a_def [symmetric] se L_def E_def)
  then have str: "toFixed 2 x = (if val x < 0 then ''-'' else []) @
      d # (if b = [] then [] else CHR ''.'' # b) @ ''e+'' @ dec E"
    unfolding db(3) by simp
  note pe = parse_exp [OF db(1,2) E0, folded X_def, unfolded vX]
  show ?thesis
  proof (cases "val x < 0")
    case True
    then have xa: "x = Num (- a)" by (cases x) (simp_all add: a_def)
    have "fl (- v) = - a" by (simp add: fl_minus fv)
    then have "Number_value True (- v) = Num (- a)" using a0 by (simp add: Number_value_def)
    with True have "parseFloat (toFixed 2 x) = Some (Num (- a))" using pe(2) by (simp add: str)
    then show ?thesis using xa by simp
  next
    case False
    with a0 have xa: "x = Num a" by (cases x) (simp_all add: a_def)
    have "Number_value False v = Num a" by (simp add: Number_value_def fv)
    with False have "parseFloat (toFixed 2 x) = Some (Num a)" using pe(1) by (simp add: str)
    then show ?thesis using xa by simp
  qed
qed

lemma parseFloat_toFixed2:
  "fl (val x) = val x \<Longrightarrow> parseFloat (toFixed 2 x) = Some (fix2 x)"
  using toFixed2_small [of x] toFixed2_big [of x]
  by (cases "\<bar>val x\<bar> < 10 ^ 21") (auto simp: fix2_def)

section \<open>Facts about the state machine\<close>

lemma timer_cleanup_owned:
  "owned s \<Longrightarrow> timer_cleanup s = s\<lparr>intervals := [], timerCleanup := None\<rparr>"
  by (cases "timerCleanup s") (auto simp: owned_def timer_cleanup_def clearInterval_def)

lemma timer_effect_empty:
  "timer_effect (s\<lparr>intervals := [], timerCleanup := None\<rparr>) = refresh s"
  by (simp add: timer_effect_def refresh_def scheduled_def tick_delay_def setInterval_def Let_def)

lemma timer_refresh: "owned s \<Longrightarrow> timer_effect (timer_cleanup s) = refresh s"
  by (simp add: timer_cleanup_owned timer_effect_empty)

lemma commit_owned:
  "owned s \<Longrightarrow> commit s =
     (let s2 = (if timer_deps_of s \<noteq> timerDeps s
                then (refresh s)\<lparr>timerDeps := timer_deps_of s\<rparr> else s)
      in if restart_deps_of s \<noteq> restartDeps s
         then (restart_effect s2)\<lparr>restartDeps := restart_deps_of s\<rparr> else s2)"
  by (simp add: commit_def Let_def timer_refresh)

lemma refresh_fields [simp]:
  "props (refresh s) = props s" "count (refresh s) = count s"
  "isVisible (refresh s) = isVisible s" "mounted (refresh s) = mounted s"
  "timerDeps (refresh s) = timerDeps s" "restartDeps (refresh s) = restartDeps s"
  by (simp_all add: refresh_def)

lemma restart_effect_fields [simp]:
  "props (restart_effect s) = props s" "isVisible (restart_effect s) = isVisible s"
  "mounted (restart_effect s) = mounted s" "intervals (restart_effect s) = intervals s"
  "nextId (restart_effect s) = nextId s" "timerCleanup (restart_effect s) = timerCleanup s"
  "timerDeps (restart_effect s) = timerDeps s" "restartDeps (restart_effect s) = restartDeps s"
  "count (restart_effect s) =
     (if restartOnViewport (props s) \<and> isVisible s then start (props s) else count s)"
  by (simp_all add: restart_effect_def)

lemma commit_fields:
  assumes "owned s"
  shows "props (commit s) = props s" "isVisible (commit s) = isVisible s"
    "mounted (commit s) = mounted s"
    "timerDeps (commit s) = timer_deps_of s" "restartDeps (commit s) = restart_deps_of s"
    "count (commit s) =
       (if restart_deps_of s \<noteq> restartDeps s \<and> restartOnViewport (props s) \<and> isVisible s
        then start (props s) else count s)"
  by (auto simp add: commit_owned [OF assms] Let_def)

lemma scheduled_cong:
  "props t = props s \<Longrightarrow> isVisible t = isVisible s \<Longrightarrow> scheduled t = scheduled s"
  by (simp add: scheduled_def)

lemma timer_ok_cong:
  "props t = props s \<Longrightarrow> isVisible t = isVisible s \<Longrightarrow> nextId t = nextId s \<Longrightarrow>
   timerCleanup t = timerCleanup s \<Longrightarrow> intervals t = intervals s \<Longrightarrow>
   timer_ok t = timer_ok s"
  by (simp add: timer_ok_def scheduled_def)

lemma owned_cong:
  "nextId t = nextId s \<Longrightarrow> timerCleanup t = timerCleanup s \<Longrightarrow>
   intervals t = intervals s \<Longrightarrow> owned t = owned s"
  by (auto simp add: owned_def split: option.splits)

lemma timer_ok_refresh: "timer_ok (refresh s)"
  by (simp add: timer_ok_def refresh_def scheduled_def)

lemma owned_refresh: "owned (refresh s)"
  by (simp add: owned_def refresh_def)

lemma timer_ok_owned: "timer_ok s \<Longrightarrow> owned s"
  by (auto simp: timer_ok_def owned_def split: if_splits)

lemma commit_timer:
  assumes "owned s"
  shows "intervals (commit s) = intervals (if timer_deps_of s \<noteq> timerDeps s then refresh s else s)"
    "nextId (commit s) = nextId (if timer_deps_of s \<noteq> timerDeps s then refresh s else s)"
    "timerCleanup (commit s) = timerCleanup (if timer_deps_of s \<noteq> timerDeps s then refresh s else s)"
  by (simp_all add: commit_owned [OF assms] Let_def)

lemma commit_keeps_owned:
  assumes "owned s"
  shows "owned (commit s)"
proof -
  let ?t = "if timer_deps_of s \<noteq> timerDeps s then refresh s else s"
  have "owned ?t" using assms owned_refresh by auto
  moreover have "owned (commit s) = owned ?t"
    by (rule owned_cong) (simp_all only: commit_timer [OF assms])
  ultimately show ?thesis by simp
qed

lemma commit_timer_ok:
  assumes "owned s" "timer_deps_of s \<noteq> timerDeps s \<or> timer_ok s"
  shows "timer_ok (commit s)"
proof -
  let ?t = "if timer_deps_of s \<noteq> timerDeps s then refresh s else s"
  have "timer_ok ?t" using assms(2) timer_ok_refresh by auto
  moreover have "timer_ok (commit s) = timer_ok ?t"
  proof (rule timer_ok_cong)
    show "props (commit s) = props ?t" "isVisible (commit s) = isVisible ?t"
      by (simp_all add: commit_fields [OF assms(1)])
  qed (simp_all only: commit_timer [OF assms(1)])
  ultimately show ?thesis by simp
qed

lemma restart_deps_commit: "owned s \<Longrightarrow> restart_deps_of (commit s) = restart_deps_of s"
  by (simp add: restart_deps_of_def commit_fields)

lemma timer_deps_commit:
  "owned s \<Longrightarrow> timer_deps_of (commit s) = timer_deps_of s \<longleftrightarrow> count (commit s) = count s"
  by (auto simp: timer_deps_of_def commit_fields)

lemma settled_rerender:
  assumes "owned s" "mounted s" "timerDeps s = timer_deps_of s \<longrightarrow> timer_ok s"
  shows "settled (rerender s)"
proof -
  let ?c = "commit s"
  have oc: "owned ?c" by (rule commit_keeps_owned [OF assms(1)])
  have ok1: "timer_ok ?c" using assms(1,3) by (intro commit_timer_ok) auto
  have ok2: "timer_ok (commit ?c)" using oc ok1 by (intro commit_timer_ok) auto
  have rd: "restartDeps ?c = restart_deps_of ?c"
    by (simp add: commit_fields(5) [OF assms(1)] restart_deps_commit [OF assms(1)])
  have cnt: "count (commit ?c) = count ?c"
    by (simp add: commit_fields(6) [OF oc] rd)
  have td: "timerDeps (commit ?c) = timer_deps_of (commit ?c)"
    using timer_deps_commit [OF oc] cnt by (simp add: commit_fields(4) [OF oc])
  have rd2: "restartDeps (commit ?c) = restart_deps_of (commit ?c)"
    by (simp add: commit_fields(5) [OF oc] restart_deps_commit [OF oc])
  have "mounted (commit ?c)"
    using assms(2) by (simp add: commit_fields(3) [OF oc] commit_fields(3) [OF assms(1)])
  with td rd2 ok2 show ?thesis by (simp add: settled_def rerender_def)
qed

lemma count_rerender:
  assumes "owned s"
  shows "count (rerender s) =
      (if restart_deps_of s \<noteq> restartDeps s \<and> restartOnViewport (props s) \<and> isVisible s
       then start (props s) else count s)"
proof -
  let ?c = "commit s"
  have oc: "owned ?c" by (rule commit_keeps_owned [OF assms])
  have rd: "restartDeps ?c = restart_deps_of ?c"
    by (simp add: commit_fields(5) [OF assms] restart_deps_commit [OF assms])
  have "count (commit ?c) = count ?c"
    by (simp add: commit_fields(6) [OF oc] rd)
  then show ?thesis by (simp add: rerender_def commit_fields(6) [OF assms])
qed

lemma rerender_fields:
  assumes "owned s"
  shows "props (rerender s) = props s" "isVisible (rerender s) = isVisible s"
    "mounted (rerender s) = mounted s"
  using commit_keeps_owned [OF assms] by (simp_all add: rerender_def commit_fields assms)

lemma settled_owned: "settled s \<Longrightarrow> owned s"
  by (auto simp: settled_def owned_def timer_ok_owned [unfolded owned_def] split: if_splits)

lemma rerender_settled: "settled s \<Longrightarrow> mounted s \<Longrightarrow> rerender s = s"
  by (simp add: rerender_def commit_def settled_def Let_def)

lemma mount_refresh: "mount p = refresh (initial p)"
proof -
  let ?s = "initial p"
  have a: "timer_effect ?s = refresh ?s"
    using timer_effect_empty [of ?s] by (simp add: initial_def)
  have b: "restart_effect (refresh ?s) = refresh ?s"
    by (simp add: restart_effect_def initial_def)
  have c: "commit (refresh ?s) = refresh ?s"
    by (simp add: commit_def Let_def timer_deps_of_def restart_deps_of_def initial_def)
  show ?thesis by (simp only: mount_def a b c)
qed

lemma settled_mount: "settled (mount p)"
  using timer_ok_refresh [of "initial p"]
  by (simp add: mount_refresh settled_def timer_deps_of_def restart_deps_of_def)
    (simp add: initial_def)

lemma settled_unmount: "settled s \<Longrightarrow> settled (unmount s)"
  using timer_cleanup_owned [OF settled_owned, of s]
  by (simp add: unmount_def settled_def)

lemma settled_find:
  assumes "settled s" "find (\<lambda>iv. intervalId iv = i) (intervals s) = Some iv"
  shows "mounted s \<and> timerCleanup s = Some i \<and> callback iv = capture (props s) \<and>
         delay iv = tick_delay (props s) \<and> intervals s = [iv]"
proof -
  from assms(2) have ne: "intervals s \<noteq> []" by auto
  with assms(1) have m: "mounted s" and ok: "timer_ok s"
    by (auto simp: settled_def split: if_splits)
  from ok ne obtain j where j: "timerCleanup s = Some j"
    "intervals s = [\<lparr>intervalId = j, delay = tick_delay (props s), callback = capture (props s)\<rparr>]"
    by (auto simp: timer_ok_def split: if_splits)
  with assms(2) have "i = j"
    "iv = \<lparr>intervalId = j, delay = tick_delay (props s), callback = capture (props s)\<rparr>"
    by (auto split: if_splits)
  with m j show ?thesis by simp
qed

lemma owned_update [simp]:
  "owned (s\<lparr>isVisible := b\<rparr>) = owned s" "owned (s\<lparr>count := c\<rparr>) = owned s"
  "owned (s\<lparr>props := q\<rparr>) = owned s"
  by (rule owned_cong; simp)+

lemma settled_step: "settled s \<Longrightarrow> settled (step e s)"
proof (cases e)
  case (Intersect b)
  assume s: "settled s"
  show ?thesis
  proof (cases "mounted s \<and> isVisible s \<noteq> b")
    case True
    have "timerDeps (s\<lparr>isVisible := b\<rparr>) \<noteq> timer_deps_of (s\<lparr>isVisible := b\<rparr>)"
      using s True by (auto simp: settled_def timer_deps_of_def)
    then show ?thesis using True Intersect settled_owned [OF s] by (simp add: settled_rerender)
  next
    case False
    then show ?thesis using s Intersect by auto
  qed
next
  case (Tick i)
  assume s: "settled s"
  show ?thesis
  proof (cases "find (\<lambda>iv. intervalId iv = i) (intervals s)")
    case None
    then show ?thesis using s Tick by simp
  next
    case (Some iv)
    let ?c = "updateCount (callback iv) (count s)"
    show ?thesis
    proof (cases "mounted s \<and> ?c \<noteq> count s")
      case True
      have "timerDeps (s\<lparr>count := ?c\<rparr>) \<noteq> timer_deps_of (s\<lparr>count := ?c\<rparr>)"
        using s True by (auto simp: settled_def timer_deps_of_def)
      then show ?thesis
        using True Tick Some settled_owned [OF s] by (simp add: settled_rerender Let_def)
    next
      case False
      then show ?thesis using s Tick Some by (auto simp: Let_def)
    qed
  qed
next
  case (SetProps q)
  assume s: "settled s"
  show ?thesis
  proof (cases "mounted s")
    case True
    have "timer_ok (s\<lparr>props := q\<rparr>)"
      if eq: "timerDeps (s\<lparr>props := q\<rparr>) = timer_deps_of (s\<lparr>props := q\<rparr>)"
    proof -
      have ok: "timer_ok s" and "timerDeps s = timer_deps_of s"
        using s True by (simp_all add: settled_def)
      with eq have "start q = start (props s)" "endv q = endv (props s)"
        "duration q = duration (props s)" "startOnViewport q = startOnViewport (props s)"
        by (simp_all add: timer_deps_of_def)
      then have "scheduled (s\<lparr>props := q\<rparr>) = scheduled s" "tick_delay q = tick_delay (props s)"
        "capture q = capture (props s)"
        by (simp_all add: scheduled_def tick_delay_def capture_def)
      with ok show ?thesis by (simp add: timer_ok_def)
    qed
    then show ?thesis
      using True SetProps settled_owned [OF s] by (simp add: settled_rerender)
  next
    case False
    then show ?thesis using s SetProps by simp
  qed
next
  case Unmount
  assume "settled s"
  then show ?thesis using Unmount by (simp add: settled_unmount)
qed

lemma settled_run: "settled s \<Longrightarrow> settled (run s evs)"
  by (induction evs arbitrary: s) (simp_all add: settled_step)

lemma settled_reach: "settled (run (mount p) evs)"
  by (simp add: settled_run settled_mount)

subsection \<open>The values of the operators\<close>

lemma val_Number_value [simp]: "val (Number_value neg r) = fl r"
  by (simp add: Number_value_def Let_def)

lemma val_num_add [simp]: "val (num_add a b) = fl (val a + val b)"
  by (simp add: num_add_def)

lemma val_num_neg [simp]: "val (num_neg a) = - val a"
  by (cases a) (simp_all add: num_neg_def)

lemma val_num_sub [simp]: "val (num_sub a b) = fl (val a - val b)"
  by (simp add: num_sub_def)

lemma val_num_div [simp]: "val (num_div a b) = fl (val a / val b)"
  by (simp add: num_div_def)

lemma val_Math_max [simp]: "val (Math_max a b) = max (val a) (val b)"
  by (auto simp: Math_max_def)

lemma val_Math_ceil [simp]: "val (Math_ceil x) = of_int \<lceil>val x\<rceil>"
  by (cases x) (simp_all add: Math_ceil_def Let_def)

lemma floor_half [simp]: "\<lfloor>1 / 2 :: rat\<rfloor> = 0"
  by (simp add: floor_eq_iff)

lemma val_Math_round [simp]: "val (Math_round x) = of_int \<lfloor>val x + 1 / 2\<rfloor>"
  by (cases x) (simp_all add: Math_round_def Let_def)

lemma double_Number_value [simp]: "fl (val (Number_value neg r)) = val (Number_value neg r)"
  by simp

lemma double_num_add [simp]: "fl (val (num_add a b)) = val (num_add a b)"
  by simp

subsection \<open>Rounding to two decimals\<close>

lemma totalSteps_pos: "1 \<le> val (totalSteps p)"
  by (simp add: totalSteps_def)

lemma updateCount_fix2:
  "updateCount env c =
     (let x = fix2 (num_add c (num_div (num_sub (env_end env) (env_start env))
                (Math_max (Num 1) (Math_ceil (num_div (env_duration env) (Num 100))))))
      in if num_ge x (env_end env) then env_end env else x)"
  by (simp add: updateCount_def parseFloat_toFixed2 Let_def)

lemma updateCount_capture:
  "updateCount (capture p) c =
     (if num_ge (fix2 (num_add c (increment p))) (endv p) then endv p
      else fix2 (num_add c (increment p)))"
  by (simp add: updateCount_fix2 capture_def increment_def totalSteps_def Let_def)

lemma nearest_of_int: "0 \<le> k \<Longrightarrow> nearest (of_int k) = k"
  by (simp add: nearest_def floor_eq_iff)

lemma nearest_mono: "x \<le> y \<Longrightarrow> nearest x \<le> nearest y"
  by (simp add: nearest_def floor_mono)

lemma hundredth_pos: "0 < x \<Longrightarrow> hundredth x = of_int (nearest (x * 100)) / 100"
  by (simp add: hundredth_def)

lemma hundredth_minus: "hundredth (- x) = - hundredth x"
  by (simp add: hundredth_def)

lemma hundredth_nonneg: "0 \<le> x \<Longrightarrow> 0 \<le> hundredth x"
  by (cases "x = 0") (simp_all add: hundredth_pos nearest_nonneg)

lemma hundredth_mono_pos:
  assumes "0 < x" "x \<le> y"
  shows "hundredth x \<le> hundredth y"
proof -
  have "nearest (x * 100) \<le> nearest (y * 100)" using assms(2) by (intro nearest_mono) simp
  then have "(of_int (nearest (x * 100)) :: rat) \<le> of_int (nearest (y * 100))"
    by (simp only: of_int_le_iff)
  then show ?thesis using assms by (simp add: hundredth_pos divide_right_mono)
qed

lemma hundredth_mono:
  assumes "x \<le> y"
  shows "hundredth x \<le> hundredth y"
proof -
  consider "0 < x" | "x \<le> 0" "0 \<le> y" | "y < 0" by linarith
  then show ?thesis
  proof cases
    case 1
    then show ?thesis using assms by (rule hundredth_mono_pos)
  next
    case 2
    have "hundredth x \<le> 0" using hundredth_nonneg [of "- x"] 2(1) by (simp add: hundredth_minus)
    also have "0 \<le> hundredth y" using 2(2) by (rule hundredth_nonneg)
    finally show ?thesis .
  next
    case 3
    then have "hundredth (- y) \<le> hundredth (- x)" using assms by (intro hundredth_mono_pos) simp_all
    then show ?thesis by (simp add: hundredth_minus)
  qed
qed

lemma val_fix2:
  "val (fix2 x) = (if \<bar>val x\<bar> < 10 ^ 21 then fl (hundredth (val x)) else val x)"
  by (simp add: fix2_def)

lemma two_decimals_double: "two_decimals x \<Longrightarrow> fl (val x) = val x"
proof -
  assume "two_decimals x"
  then have "val x = fl (hundredth (val x))" by (simp add: two_decimals_def)
  then have "fl (val x) = fl (fl (hundredth (val x)))" by simp
  also have "\<dots> = fl (hundredth (val x))" by (rule fl_idem)
  finally show ?thesis using \<open>val x = _\<close> by simp
qed

lemma fix2_above:
  assumes "two_decimals e" "val e \<le> val x"
  shows "val e \<le> val (fix2 x)"
proof (cases "\<bar>val x\<bar> < 10 ^ 21")
  case True
  have "fl (hundredth (val e)) \<le> fl (hundredth (val x))"
    by (intro fl_mono hundredth_mono assms(2))
  with True assms(1) show ?thesis by (simp add: val_fix2 two_decimals_def)
next
  case False
  with assms(2) show ?thesis by (simp add: val_fix2)
qed

lemma increment_nonneg:
  assumes "val (start p) \<le> val (endv p)"
  shows "0 \<le> val (increment p)"
proof -
  have "0 \<le> fl (val (endv p) - val (start p))" using assms by (intro fl_nonneg) simp
  moreover have "0 < val (totalSteps p)" using totalSteps_pos [of p] by simp
  ultimately show ?thesis unfolding increment_def by (simp add: fl_nonneg)
qed

lemma tick_at_end:
  assumes "val (start p) \<le> val (endv p)" "two_decimals (endv p)"
  shows "updateCount (capture p) (endv p) = endv p"
proof -
  have "val (endv p) + 0 \<le> val (endv p) + val (increment p)"
    using increment_nonneg [OF assms(1)] by (intro add_left_mono)
  then have "fl (val (endv p)) \<le> fl (val (endv p) + val (increment p))"
    by (intro fl_mono) simp
  then have "val (endv p) \<le> val (num_add (endv p) (increment p))"
    by (simp add: two_decimals_double [OF assms(2)])
  from fix2_above [OF assms(2) this] show ?thesis
    by (simp add: updateCount_capture num_ge_def)
qed

subsection \<open>Ticks and intersection changes\<close>

lemma restart_deps_of_count [simp]: "restart_deps_of (s\<lparr>count := c\<rparr>) = restart_deps_of s"
  by (simp add: restart_deps_of_def)

lemma settled_timer:
  assumes "settled s" "timerCleanup s = Some i"
  shows "mounted s" "scheduled s"
    "intervals s = [\<lparr>intervalId = i, delay = tick_delay (props s), callback = capture (props s)\<rparr>]"
  using assms by (auto simp: settled_def timer_ok_def split: if_splits)

lemma settled_scheduled:
  assumes "settled s" "mounted s"
  shows "timerCleanup s \<noteq> None \<longleftrightarrow> scheduled s"
  using assms by (auto simp: settled_def timer_ok_def split: if_splits)

lemma tick_count:
  assumes "settled s" "timerCleanup s = Some i"
  shows "count (step (Tick i) s) = updateCount (capture (props s)) (count s)"
proof -
  let ?c = "updateCount (capture (props s)) (count s)"
  note t = settled_timer [OF assms]
  have f: "find (\<lambda>iv. intervalId iv = i) (intervals s) =
      Some \<lparr>intervalId = i, delay = tick_delay (props s), callback = capture (props s)\<rparr>"
    by (simp add: t(3))
  show ?thesis
  proof (cases "?c = count s")
    case True
    then show ?thesis by (simp add: f)
  next
    case False
    have "restartDeps s = restart_deps_of s" using assms(1) t(1) by (simp add: settled_def)
    then have "count (rerender (s\<lparr>count := ?c\<rparr>)) = ?c"
      using settled_owned [OF assms(1)] by (simp add: count_rerender)
    with False t(1) show ?thesis by (simp add: f Let_def)
  qed
qed

lemma tick_idle:
  assumes "settled s" "timerCleanup s = Some i"
    "updateCount (capture (props s)) (count s) = count s"
  shows "step (Tick i) s = s"
  using settled_timer(3) [OF assms(1,2)] assms(3) by simp

lemma intersect_true:
  assumes "settled s" "mounted s" "\<not> isVisible s"
  defines "s' \<equiv> step (Intersect True) s"
  shows "settled s'" "isVisible s'" "props s' = props s" "mounted s'"
    "count s' = (if restartOnViewport (props s) then start (props s) else count s)"
proof -
  let ?t = "s\<lparr>isVisible := True\<rparr>"
  have s': "s' = rerender ?t" using assms(2,3) by (simp add: s'_def)
  have o: "owned ?t" using settled_owned [OF assms(1)] by simp
  show "settled s'" unfolding s'_def by (rule settled_step [OF assms(1)])
  show "isVisible s'" "props s' = props s" "mounted s'"
    using assms(2) by (simp_all add: s' rerender_fields [OF o])
  have "restartDeps s = restart_deps_of s" using assms(1,2) by (simp add: settled_def)
  then have "restart_deps_of ?t \<noteq> restartDeps ?t"
    using assms(3) by (simp add: restart_deps_of_def)
  then show "count s' = (if restartOnViewport (props s) then start (props s) else count s)"
    by (simp add: s' count_rerender [OF o])
qed

lemma mount_fields: "props (mount p) = p" "count (mount p) = start p"
  by (simp_all add: mount_refresh) (simp_all add: initial_def)

subsection \<open>Cleared handles\<close>

lemma cleared_refresh: "cleared i s \<Longrightarrow> cleared i (refresh s)"
  by (auto simp: cleared_def refresh_def)

lemma cleared_cong:
  "nextId t = nextId s \<Longrightarrow> intervals t = intervals s \<Longrightarrow> cleared i t = cleared i s"
  by (simp add: cleared_def)

lemma cleared_commit:
  assumes "owned s" "cleared i s"
  shows "cleared i (commit s)"
proof -
  let ?t = "if timer_deps_of s \<noteq> timerDeps s then refresh s else s"
  have "cleared i ?t" using assms(2) cleared_refresh by auto
  moreover have "cleared i (commit s) = cleared i ?t"
    by (rule cleared_cong) (simp_all only: commit_timer [OF assms(1)])
  ultimately show ?thesis by simp
qed

lemma cleared_rerender: "owned s \<Longrightarrow> cleared i s \<Longrightarrow> cleared i (rerender s)"
  by (simp add: rerender_def cleared_commit commit_keeps_owned)

lemma cleared_update [simp]:
  "cleared i (s\<lparr>isVisible := b\<rparr>) = cleared i s" "cleared i (s\<lparr>count := c\<rparr>) = cleared i s"
  "cleared i (s\<lparr>props := q\<rparr>) = cleared i s"
  by (simp_all add: cleared_def)

lemma cleared_unmount: "owned s \<Longrightarrow> cleared i s \<Longrightarrow> cleared i (unmount s)"
  by (simp add: unmount_def timer_cleanup_owned cleared_def)

lemma cleared_step:
  assumes "settled s" "cleared i s"
  shows "cleared i (step e s)"
proof -
  note o = settled_owned [OF assms(1)]
  show ?thesis
  proof (cases e)
    case (Intersect b)
    then show ?thesis using o assms(2) by (simp add: cleared_rerender)
  next
    case (Tick j)
    then show ?thesis
      using o assms(2) by (simp add: cleared_rerender Let_def split: option.splits)
  next
    case (SetProps q)
    then show ?thesis using o assms(2) by (simp add: cleared_rerender)
  next
    case Unmount
    then show ?thesis using o assms(2) by (simp add: cleared_unmount)
  qed
qed

lemma cleared_run: "settled s \<Longrightarrow> cleared i s \<Longrightarrow> cleared i (run s evs)"
  by (induction evs arbitrary: s) (simp_all add: cleared_step settled_step)

lemma cleared_tick: "cleared i s \<Longrightarrow> step (Tick i) s = s"
proof -
  assume "cleared i s"
  then have "find (\<lambda>iv. intervalId iv = i) (intervals s) = None"
    by (auto simp: cleared_def find_None_iff)
  then show ?thesis by simp
qed

lemma nextId_refresh: "nextId s \<le> nextId (refresh s)"
  by (simp add: refresh_def)

lemma nextId_commit: "owned s \<Longrightarrow> nextId s \<le> nextId (commit s)"
  using nextId_refresh [of s] by (simp add: commit_timer)

lemma nextId_rerender: "owned s \<Longrightarrow> nextId s \<le> nextId (rerender s)"
  using nextId_commit [of s] nextId_commit [of "commit s"] commit_keeps_owned [of s]
  by (simp add: rerender_def)

lemma nextId_step:
  assumes "settled s"
  shows "nextId s \<le> nextId (step e s)"
proof -
  note o = settled_owned [OF assms]
  have r: "nextId s \<le> nextId (rerender (s\<lparr>isVisible := b\<rparr>))"
    "nextId s \<le> nextId (rerender (s\<lparr>count := c\<rparr>))"
    "nextId s \<le> nextId (rerender (s\<lparr>props := q\<rparr>))" for b c q
    using nextId_rerender [of "s\<lparr>isVisible := b\<rparr>"] nextId_rerender [of "s\<lparr>count := c\<rparr>"]
      nextId_rerender [of "s\<lparr>props := q\<rparr>"] o by simp_all
  show ?thesis
  proof (cases e)
    case (Intersect b)
    then show ?thesis using r(1) by simp
  next
    case (Tick j)
    then show ?thesis using r(2) by (simp add: Let_def split: option.splits)
  next
    case (SetProps q)
    then show ?thesis using r(3) by simp
  next
    case Unmount
    then show ?thesis using o by (simp add: unmount_def timer_cleanup_owned)
  qed
qed

lemma torn_down_cleared:
  assumes "settled s" "timerCleanup s = Some i" "timerCleanup (step e s) \<noteq> Some i"
  shows "cleared i (step e s)"
proof -
  have "i < nextId s" using assms(1,2) by (auto simp: settled_def timer_ok_def split: if_splits)
  with nextId_step [OF assms(1), of e] have "i < nextId (step e s)" by simp
  moreover have "i \<notin> intervalId ` set (intervals (step e s))"
    using settled_step [OF assms(1), of e] assms(3)
    by (auto simp: settled_def timer_ok_def split: if_splits)
  ultimately show ?thesis by (simp add: cleared_def)
qed

lemma unmounted_step: "\<not> mounted s \<Longrightarrow> intervals s = [] \<Longrightarrow> step e s = s"
  by (cases e) simp_all

lemma unmounted_run: "\<not> mounted s \<Longrightarrow> intervals s = [] \<Longrightarrow> run s evs = s"
  by (induction evs) (simp_all add: unmounted_step)

lemma unmount_fields:
  assumes "settled s"
  shows "\<not> mounted (step Unmount s)" "intervals (step Unmount s) = []"
    "timerCleanup (step Unmount s) = None"
  using assms timer_cleanup_owned [OF settled_owned [OF assms]]
  by (auto simp: unmount_def settled_def)

subsection \<open>The loop prop\<close>

lemma loop_to_fields [simp]:
  "count (loop_to b s) = count s" "isVisible (loop_to b s) = isVisible s"
  "mounted (loop_to b s) = mounted s" "intervals (loop_to b s) = intervals s"
  "nextId (loop_to b s) = nextId s" "timerCleanup (loop_to b s) = timerCleanup s"
  "restartDeps (loop_to b s) = restartDeps s" "props (loop_to b s) = (props s)\<lparr>loop := b\<rparr>"
  by (simp_all add: loop_to_def)

lemma capture_loop [simp]: "capture (q\<lparr>loop := b\<rparr>) = capture q"
  by (simp add: capture_def)

lemma render_loop [simp]: "render (q\<lparr>loop := b\<rparr>) c = render q c"
  by (simp add: render_def)

lemma rendered_loop_to [simp]: "rendered (loop_to b s) = rendered s"
  by (simp add: rendered_def)

lemma loop_to_timer_cleanup: "timer_cleanup (loop_to b s) = loop_to b (timer_cleanup s)"
  by (simp add: timer_cleanup_def clearInterval_def loop_to_def split: option.splits)

lemma loop_to_timer_effect: "timer_effect (loop_to b s) = loop_to b (timer_effect s)"
  by (simp add: timer_effect_def setInterval_def loop_to_def Let_def)

lemma loop_to_restart_effect: "restart_effect (loop_to b s) = loop_to b (restart_effect s)"
  by (simp add: restart_effect_def loop_to_def)

lemma restart_deps_loop_to [simp]: "restart_deps_of (loop_to b s) = restart_deps_of s"
  by (simp add: restart_deps_of_def)

lemma timer_deps_loop_to:
  "loop_stored s \<Longrightarrow>
   timer_deps_of (loop_to b s) = timerDeps (loop_to b s) \<longleftrightarrow> timer_deps_of s = timerDeps s"
  by (auto simp: loop_stored_def timer_deps_of_def loop_to_def split: prod.splits)

lemma loop_to_set_timerDeps:
  "(loop_to b s)\<lparr>timerDeps := timer_deps_of (loop_to b s)\<rparr> =
   loop_to b (s\<lparr>timerDeps := timer_deps_of s\<rparr>)"
  by (simp add: loop_to_def timer_deps_of_def)

lemma loop_to_set_restartDeps:
  "(loop_to b s)\<lparr>restartDeps := d\<rparr> = loop_to b (s\<lparr>restartDeps := d\<rparr>)"
  by (simp add: loop_to_def)

lemma timer_deps_of_effects [simp]:
  "timer_deps_of (timer_cleanup s) = timer_deps_of s"
  by (simp add: timer_deps_of_def timer_cleanup_def clearInterval_def split: option.splits)

lemma loop_to_commit:
  assumes "loop_stored s"
  shows "commit (loop_to b s) = loop_to b (commit s)"
proof -
  have e: "timer_effect (timer_cleanup (loop_to b s))\<lparr>timerDeps := timer_deps_of (loop_to b s)\<rparr>
      = loop_to b ((timer_effect (timer_cleanup s))\<lparr>timerDeps := timer_deps_of s\<rparr>)"
    by (simp add: loop_to_timer_cleanup loop_to_timer_effect)
      (simp add: loop_to_def timer_deps_of_def)
  show ?thesis
    unfolding commit_def Let_def
    using timer_deps_loop_to [OF assms, of b]
    by (simp add: e loop_to_restart_effect loop_to_set_restartDeps)
qed


lemma effect_props [simp]:
  "props (timer_cleanup s) = props s" "props (timer_effect s) = props s"
  "timerDeps (timer_cleanup s) = timerDeps s" "timerDeps (timer_effect s) = timerDeps s"
  by (simp_all add: timer_cleanup_def timer_effect_def setInterval_def clearInterval_def Let_def
      split: option.splits)

lemma commit_props: "props (commit s) = props s"
  by (simp add: commit_def Let_def)

lemma commit_timerDeps:
  "timerDeps (commit s) = (if timer_deps_of s \<noteq> timerDeps s then timer_deps_of s else timerDeps s)"
  by (simp add: commit_def Let_def)

lemma loop_stored_commit: "loop_stored s \<Longrightarrow> loop_stored (commit s)"
  by (auto simp: loop_stored_def commit_props commit_timerDeps timer_deps_of_def)

lemma loop_to_rerender:
  "loop_stored s \<Longrightarrow> rerender (loop_to b s) = loop_to b (rerender s)"
  by (simp add: rerender_def loop_to_commit loop_stored_commit)

lemma loop_stored_rerender: "loop_stored s \<Longrightarrow> loop_stored (rerender s)"
  by (simp add: rerender_def loop_stored_commit)

lemma rerender_props: "props (rerender s) = props s"
  by (simp add: rerender_def commit_props)

lemma loop_stored_update [simp]:
  "loop_stored (s\<lparr>isVisible := v\<rparr>) = loop_stored s"
  "loop_stored (s\<lparr>count := c\<rparr>) = loop_stored s"
  "loop_stored (s\<lparr>mounted := m\<rparr>) = loop_stored s"
  by (simp_all add: loop_stored_def)

lemma loop_to_update:
  "loop_to b (s\<lparr>isVisible := v\<rparr>) = (loop_to b s)\<lparr>isVisible := v\<rparr>"
  "loop_to b (s\<lparr>count := c\<rparr>) = (loop_to b s)\<lparr>count := c\<rparr>"
  "loop_to b (s\<lparr>mounted := m\<rparr>) = (loop_to b s)\<lparr>mounted := m\<rparr>"
  "loop_to b (s\<lparr>props := q\<rparr>) = (loop_to b s)\<lparr>props := q\<lparr>loop := b\<rparr>\<rparr>"
  by (simp_all add: loop_to_def)

lemma loop_stored_timer_cleanup [simp]: "loop_stored (timer_cleanup s) = loop_stored s"
  by (simp add: loop_stored_def)

lemma loop_step:
  assumes "loop_stored s" "loop (props s) = a"
  shows "loop_stored (step (with_loop a e) s) \<and> loop (props (step (with_loop a e) s)) = a \<and>
         loop_to b (step (with_loop a e) s) = step (with_loop b e) (loop_to b s)"
proof (cases e)
  case (Intersect v)
  have "rerender ((loop_to b s)\<lparr>isVisible := v\<rparr>) = loop_to b (rerender (s\<lparr>isVisible := v\<rparr>))"
    using assms(1) by (simp add: loop_to_update [symmetric] loop_to_rerender)
  then show ?thesis
    using assms Intersect by (simp add: with_loop_def loop_stored_rerender rerender_props)
next
  case (Tick i)
  have "rerender ((loop_to b s)\<lparr>count := c\<rparr>) = loop_to b (rerender (s\<lparr>count := c\<rparr>))" for c
    using assms(1) by (simp add: loop_to_update [symmetric] loop_to_rerender)
  then show ?thesis
    using assms Tick by (simp add: with_loop_def loop_stored_rerender rerender_props Let_def
        split: option.splits)
next
  case (SetProps q)
  have ls: "loop_stored (s\<lparr>props := q\<lparr>loop := a\<rparr>\<rparr>)"
    using assms by (simp add: loop_stored_def split: prod.splits)
  have "(loop_to b s)\<lparr>props := q\<lparr>loop := b\<rparr>\<rparr> = loop_to b (s\<lparr>props := q\<lparr>loop := a\<rparr>\<rparr>)"
    by (simp add: loop_to_def)
  then have "rerender ((loop_to b s)\<lparr>props := q\<lparr>loop := b\<rparr>\<rparr>) =
      loop_to b (rerender (s\<lparr>props := q\<lparr>loop := a\<rparr>\<rparr>))"
    by (simp only: loop_to_rerender [OF ls])
  then show ?thesis
    using assms SetProps ls by (simp add: with_loop_def loop_stored_rerender rerender_props)
next
  case Unmount
  have "unmount (loop_to b s) = loop_to b (unmount s)"
    by (simp add: unmount_def loop_to_timer_cleanup loop_to_update)
  then show ?thesis
    using assms Unmount by (simp add: with_loop_def) (simp add: unmount_def)
qed

lemma loop_trace:
  assumes "loop_stored s" "loop (props s) = a"
  shows "map (loop_to b) (trace s (map (with_loop a) evs)) =
         trace (loop_to b s) (map (with_loop b) evs)"
  using assms
proof (induction evs arbitrary: s)
  case Nil
  show ?case by simp
next
  case (Cons e evs)
  from loop_step [OF Cons.prems, of e b] Cons.IH [of "step (with_loop a e) s"]
  show ?case by simp
qed

lemma loop_mount:
  "loop_stored (mount p)" "loop (props (mount p)) = loop p"
  "loop_to b (mount p) = mount (p\<lparr>loop := b\<rparr>)"
proof -
  have i: "loop_stored (initial p)" by (simp add: loop_stored_def initial_def)
  have r: "loop_stored (restart_effect (timer_effect (initial p)))"
    using i by (simp add: loop_stored_def restart_effect_def)
  show "loop_stored (mount p)" unfolding mount_def by (rule loop_stored_commit [OF r])
  show "loop (props (mount p)) = loop p"
    by (simp add: mount_def commit_props restart_effect_def initial_def)
  have "loop_to b (initial p) = initial (p\<lparr>loop := b\<rparr>)"
    by (simp add: loop_to_def initial_def)
  then show "loop_to b (mount p) = mount (p\<lparr>loop := b\<rparr>)"
    unfolding mount_def
    by (simp add: loop_to_commit [OF r, symmetric] loop_to_restart_effect [symmetric]
        loop_to_timer_effect [symmetric])
qed

subsection \<open>Fixed-point notation\<close>

lemma digit_char_0 [simp]: "digit_char 0 = CHR ''0''"
  by (simp add: digit_char_def)

lemma dec_small: "n < 10 \<Longrightarrow> dec n = [digit_char n]"
  by (subst dec.simps) simp

lemma dec_large: "\<not> n < 10 \<Longrightarrow> dec n = dec (n div 10) @ [digit_char (n mod 10)]"
  by (subst dec.simps) simp

lemma toFixed0_fixed_point: "\<bar>val x\<bar> < 10 ^ 21 \<Longrightarrow> toFixed 0 x = fixed_point 0 (val x)"
  by (simp add: toFixed_def fixed_point_def Let_def)

lemma toFixed1_fixed_point:
  assumes "\<bar>val x\<bar> < 10 ^ 21"
  shows "toFixed 1 x = fixed_point 1 (val x)"
proof -
  define n where "n = nearest (\<bar>val x\<bar> * 10)"
  have n0: "0 \<le> n" by (simp add: n_def nearest_nonneg)
  have fd: "dec (n mod 10) = [digit_char (n mod 10)]" by (simp add: dec_small)
  show ?thesis
  proof (cases "n < 10")
    case True
    with n0 have "n div 10 = 0" "n mod 10 = n" by simp_all
    then show ?thesis
      using assms True
      by (simp add: toFixed_def fixed_point_def Let_def n_def [symmetric] dec_small)
  next
    case False
    then show ?thesis
      using assms length_dec_pos [of "n div 10"]
      by (simp add: toFixed_def fixed_point_def Let_def n_def [symmetric] dec_large fd)
  qed
qed

lemma fixed_point1_int:
  "fixed_point 1 (of_int z) = (if z < 0 then ''-'' else []) @ dec \<bar>z\<bar> @ ''.0''"
proof -
  have "\<bar>rat_of_int z\<bar> * 10 = of_int (\<bar>z\<bar> * 10)" by simp
  then have "nearest (\<bar>rat_of_int z\<bar> * 10 ^ 1) = \<bar>z\<bar> * 10"
    using nearest_of_int [of "\<bar>z\<bar> * 10"] by simp
  moreover have "dec 0 = ''0''" by code_simp
  ultimately show ?thesis by (simp add: fixed_point_def Let_def)
qed

subsection \<open>Thousands grouping\<close>

lemma dec_three:
  assumes "1000 \<le> n"
  shows "dec n = dec (n div 1000) @
      [digit_char (n div 100 mod 10), digit_char (n div 10 mod 10), digit_char (n mod 10)]"
proof -
  have a: "dec n = dec (n div 10) @ [digit_char (n mod 10)]"
    using assms by (intro dec_large) simp
  have b: "dec (n div 10) = dec (n div 10 div 10) @ [digit_char (n div 10 mod 10)]"
    using assms by (intro dec_large) simp
  have c: "dec (n div 10 div 10) = dec (n div 10 div 10 div 10) @ [digit_char (n div 10 div 10 mod 10)]"
    using assms by (intro dec_large) simp
  have d: "n div 10 div 10 = n div 100" "n div 100 div 10 = n div 1000"
    by (simp_all add: zdiv_zmult2_eq [symmetric])
  show ?thesis unfolding a b c unfolding d by simp
qed

lemma length_dec_small:
  assumes "n < 1000"
  shows "length (dec n) \<le> 3"
proof -
  consider "n < 10" | "\<not> n < 10" "n < 100" | "\<not> n < 100" by linarith
  then show ?thesis
  proof cases
    case 1
    then show ?thesis by (simp add: dec_small)
  next
    case 2
    then have "n div 10 < 10" by simp
    with 2 show ?thesis by (simp add: dec_large dec_small)
  next
    case 3
    then have "\<not> n < 10" "\<not> n div 10 < 10" "n div 10 div 10 < 10" using assms by simp_all
    then show ?thesis by (simp add: dec_large dec_small)
  qed
qed

lemma group3_short: "length ds \<le> 3 \<Longrightarrow> group3 ds = ds"
  by (induction ds rule: group3.induct) simp_all

lemma group3_three:
  "r \<noteq> [] \<Longrightarrow> group3 (a # b # c # r) = a # b # c # CHR '','' # group3 r"
  by (cases r) simp_all

lemma grouped_dec: "rev (group3 (rev (dec n))) = thousands n"
proof (induction n rule: thousands.induct)
  case (1 n)
  show ?case
  proof (cases "n < 1000")
    case True
    then show ?thesis
      by (subst thousands.simps) (simp add: group3_short length_dec_small)
  next
    case False
    then have ih: "rev (group3 (rev (dec (n div 1000)))) = thousands (n div 1000)"
      using 1 by simp
    have ne: "rev (dec (n div 1000)) \<noteq> []" by (simp add: dec_nonempty)
    from False have "1000 \<le> n" by simp
    from dec_three [OF this] have
      "rev (group3 (rev (dec n))) = rev (group3 (rev (dec (n div 1000)))) @ CHR '','' #
        [digit_char (n div 100 mod 10), digit_char (n div 10 mod 10), digit_char (n mod 10)]"
      by (simp add: group3_three [OF ne])
    then show ?thesis using False ih by (subst thousands.simps) simp
  qed
qed

lemma strip_zeros_000 [simp]: "strip_zeros ''000'' = []"
  by (simp add: Let_def)

lemma dec_0 [simp]: "dec 0 = ''0''"
  by (simp add: dec_small)

lemma shortest_magnitude:
  assumes "\<bar>k\<bar> < 10 ^ 15" "shortest (of_int \<bar>k\<bar>) = (d, e)"
  shows "of_int d * 10 powi e = (of_int \<bar>k\<bar> :: rat)"
proof (cases "k = 0")
  case True
  with assms(2) show ?thesis by (simp add: shortest_def)
next
  case False
  then have "0 < \<bar>k\<bar>" by simp
  from shortest_int [OF this assms] show ?thesis .
qed

lemma toLocaleString_int:
  assumes "\<bar>k\<bar> < 10 ^ 15"
  shows "toLocaleString (Num (of_int k)) = (if k < 0 then ''-'' else []) @ thousands \<bar>k\<bar>"
proof -
  obtain d e where se: "shortest (of_int \<bar>k\<bar>) = (d, e)"
    by (cases "shortest (of_int \<bar>k\<bar>)") auto
  note v = shortest_magnitude [OF assms se]
  have "of_int d * 10 powi e * 1000 = (of_int (\<bar>k\<bar> * 1000) :: rat)" by (simp add: v)
  then have n: "nearest (of_int d * 10 powi e * 1000) = \<bar>k\<bar> * 1000"
    using nearest_of_int [of "\<bar>k\<bar> * 1000"] by simp
  have z: "replicate 2 CHR ''0'' @ ''0'' = ''000''" by (simp add: numeral_2_eq_2)
  have a: "\<bar>val (Num (of_int k))\<bar> = of_int \<bar>k\<bar>" by simp
  have s: "negative (Num (of_int k)) = (k < 0)" by (simp add: negative_def)
  show ?thesis
    unfolding toLocaleString_def a s se by (simp add: Let_def n z grouped_dec)
qed

lemma toLocaleString_NegZero: "toLocaleString NegZero = ''-0''"
  by (simp add: toLocaleString_def negative_def shortest_def nearest_def Let_def numeral_2_eq_2)

subsection \<open>Dependency changes\<close>

lemma fresh_refresh: "i < nextId s \<Longrightarrow> cleared i (refresh s)"
  by (auto simp: cleared_def refresh_def)

lemma rerender_changed:
  assumes "owned t" "i < nextId t" "timer_deps_of (rerender t) \<noteq> timerDeps t"
  shows "cleared i (rerender t)"
proof -
  let ?c = "commit t"
  have oc: "owned ?c" by (rule commit_keeps_owned [OF assms(1)])
  show ?thesis
  proof (cases "timer_deps_of t \<noteq> timerDeps t")
    case True
    have "cleared i ?c = cleared i (refresh t)"
      using True by (intro cleared_cong) (simp_all add: commit_timer [OF assms(1)])
    then have "cleared i ?c" using fresh_refresh [OF assms(2)] by simp
    then show ?thesis unfolding rerender_def by (rule cleared_commit [OF oc])
  next
    case False
    have rd: "restartDeps ?c = restart_deps_of ?c"
      by (simp add: commit_fields(5) [OF assms(1)] restart_deps_commit [OF assms(1)])
    have "count (commit ?c) = count ?c" by (simp add: commit_fields(6) [OF oc] rd)
    then have "timer_deps_of (commit ?c) = timer_deps_of ?c"
      using timer_deps_commit [OF oc] by simp
    moreover have "timerDeps ?c = timerDeps t"
      using False by (simp add: commit_fields(4) [OF assms(1)])
    ultimately have ch: "timer_deps_of ?c \<noteq> timerDeps ?c"
      using assms(3) by (simp add: rerender_def)
    have "i < nextId ?c" using nextId_commit [OF assms(1)] assms(2) by simp
    then have "cleared i (refresh ?c)" by (rule fresh_refresh)
    moreover have "cleared i (commit ?c) = cleared i (refresh ?c)"
      using ch by (intro cleared_cong) (simp_all add: commit_timer [OF oc])
    ultimately show ?thesis by (simp add: rerender_def)
  qed
qed

lemma timer_deps_of_unmount: "timer_deps_of (unmount s) = timer_deps_of s"
  by (simp add: unmount_def timer_deps_of_def timer_cleanup_def clearInterval_def
      split: option.splits)

lemma deps_change_refreshes:
  assumes "settled s" "timerCleanup s = Some i" "timer_deps_of (step e s) \<noteq> timer_deps_of s"
  shows "timerCleanup (step e s) \<noteq> Some i"
proof -
  note o = settled_owned [OF assms(1)]
  note t = settled_timer [OF assms(1,2)]
  have i: "i < nextId s" using o assms(2) by (simp add: owned_def)
  have td: "timerDeps s = timer_deps_of s" using assms(1) t(1) by (simp add: settled_def)
  have r: "cleared i (rerender u)"
    if "owned u" "nextId u = nextId s" "timerDeps u = timerDeps s" "step e s = rerender u" for u
    using rerender_changed [of u i] that assms(3) i td by simp
  have "cleared i (step e s)"
  proof (cases e)
    case (Intersect b)
    show ?thesis
    proof (cases "mounted s \<and> isVisible s \<noteq> b")
      case True
      then have "step e s = rerender (s\<lparr>isVisible := b\<rparr>)" using Intersect by simp
      from r [OF _ _ _ this] o show ?thesis by (simp add: \<open>step e s = _\<close>)
    next
      case False
      then show ?thesis using assms(3) Intersect by auto
    qed
  next
    case (Tick j)
    show ?thesis
    proof (cases "find (\<lambda>iv. intervalId iv = j) (intervals s)")
      case None
      then show ?thesis using assms(3) Tick by simp
    next
      case (Some iv)
      let ?c = "updateCount (callback iv) (count s)"
      show ?thesis
      proof (cases "mounted s \<and> ?c \<noteq> count s")
        case True
        then have "step e s = rerender (s\<lparr>count := ?c\<rparr>)" using Tick Some by (simp add: Let_def)
        from r [OF _ _ _ this] o show ?thesis by (simp add: \<open>step e s = _\<close>)
      next
        case False
        then show ?thesis using assms(3) Tick Some by (auto simp: Let_def)
      qed
    qed
  next
    case (SetProps q)
    then have "step e s = rerender (s\<lparr>props := q\<rparr>)" using t(1) by simp
    from r [OF _ _ _ this] o show ?thesis by (simp add: \<open>step e s = _\<close>)
  next
    case Unmount
    then show ?thesis using assms(3) t(1) by (simp add: timer_deps_of_unmount)
  qed
  then have "i \<notin> intervalId ` set (intervals (step e s))" by (simp add: cleared_def)
  moreover have "settled (step e s)" by (rule settled_step [OF assms(1)])
  ultimately show ?thesis using settled_timer(3) [of "step e s" i] by auto
qed

section \<open>The claims\<close>

text \<open>
  C1: for every configuration and every run of the timer the count stays between \<open>start\<close>
  and \<open>end\<close>, moves towards \<open>end\<close>, and ends at exactly \<open>end\<close>. The code breaks this
  when \<open>end\<close> is below \<open>start\<close>: the test \<open>nextCount >= end\<close> of \<open>updateCount\<close> is true at
  the first tick, so the count jumps to \<open>end\<close>, and false from then on, so every later tick
  lowers the count by one step with nothing to stop it. With \<open>start = 10\<close>, \<open>end = 0\<close> and
  \<open>duration = 1000\<close> the counts are 10, 0, -1, -2: the run leaves the range at the second
  tick.
\<close>

theorem countdown_leaves_range:
  "map count (trace (mount (defaultProps\<lparr>start := Num 10, endv := Num 0, duration := Num 1000\<rparr>))
     [Tick 1, Tick 2, Tick 3]) = [Num 10, Num 0, Num (- 1), Num (- 2)]"
  by code_simp




text \<open>
  C3: with \<open>start = end\<close> the count never changes and no timer is created. The effect tests
  \<open>isVisible || (!startOnViewport && start !== end)\<close>: the guard \<open>start !== end\<close> is applied
  on the path that is not visible only. With \<open>start = end = 5\<close> no interval exists after
  mounting, and the intersection event creates the interval with handle 1. With
  \<open>start = end = 1/16\<close> the first tick of that interval stores \<open>parseFloat("0.06")\<close>: the
  count changes.
\<close>

theorem equal_endpoints_timer:
  "start (defaultProps\<lparr>start := Num 5, endv := Num 5\<rparr>) = endv (defaultProps\<lparr>start := Num 5, endv := Num 5\<rparr>) \<and>
   intervals (mount (defaultProps\<lparr>start := Num 5, endv := Num 5\<rparr>)) = [] \<and>
   map intervalId (intervals (run (mount (defaultProps\<lparr>start := Num 5, endv := Num 5\<rparr>)) [Intersect True]))
     = [1] \<and>
   map count (trace (mount (defaultProps\<lparr>start := Num (1 / 16), endv := Num (1 / 16)\<rparr>))
     [Intersect True, Tick 1]) = [Num (1 / 16), Num (1 / 16), Num (fl (3 / 50))] \<and>
   fl (3 / 50) < 1 / 16"
  by code_simp

text \<open>
  C4: the formatter is a total function of the value and the two settings; \<open>comma\<close> gives
  the en-US form with thousands separated by commas, \<open>period\<close> the same with every comma
  replaced by a period, and \<open>none\<close> fixed-point notation with no decimals for \<open>integer\<close> and
  one decimal otherwise; four examples are given. As the code has it, the fixed-point part
  holds for magnitudes below \<open>10^21\<close>, where \<open>toFixed\<close> writes fixed-point notation. The
  \<open>comma\<close> form groups the digits of the shortest decimal of the number: on a whole number
  below \<open>10^15\<close> in magnitude it is the sign and the thousands grouping of the magnitude, and
  a negative zero is written \<open>-0\<close>.
\<close>

theorem formatNumber_cases:
  "formatNumber ''comma'' inc x = toLocaleString x \<and>
   (\<bar>k\<bar> < 10 ^ 15 \<longrightarrow>
      formatNumber ''comma'' inc (Num (of_int k)) = (if k < 0 then ''-'' else []) @ thousands \<bar>k\<bar>) \<and>
   formatNumber ''comma'' inc NegZero = ''-0'' \<and>
   formatNumber ''period'' inc x = replace_commas (formatNumber ''comma'' inc x) \<and>
   (\<bar>val x\<bar> < 10 ^ 21 \<longrightarrow>
      formatNumber ''none'' ''integer'' x = fixed_point 0 (val x) \<and>
      (inc \<noteq> ''integer'' \<longrightarrow> formatNumber ''none'' inc x = fixed_point 1 (val x))) \<and>
   formatNumber ''comma'' ''integer'' (Num 1234) = ''1,234'' \<and>
   formatNumber ''period'' ''integer'' (Num 1234) = ''1.234'' \<and>
   formatNumber ''none'' ''decimal'' (Num (12345 / 10)) = ''1234.5'' \<and>
   formatNumber ''none'' ''integer'' (Num 1234) = ''1234''"
proof -
  have ex: "formatNumber ''comma'' ''integer'' (Num 1234) = ''1,234''"
    "formatNumber ''period'' ''integer'' (Num 1234) = ''1.234''"
    "formatNumber ''none'' ''decimal'' (Num (12345 / 10)) = ''1234.5''"
    "formatNumber ''none'' ''integer'' (Num 1234) = ''1234''"
    by code_simp+
  have a: "formatNumber ''comma'' inc x = toLocaleString x"
    "formatNumber ''period'' inc x = replace_commas (formatNumber ''comma'' inc x)"
    "formatNumber ''comma'' inc NegZero = ''-0''"
    by (simp_all add: formatNumber_def toLocaleString_NegZero)
  have g: "formatNumber ''comma'' inc (Num (of_int k)) = (if k < 0 then ''-'' else []) @ thousands \<bar>k\<bar>"
    if "\<bar>k\<bar> < 10 ^ 15"
    using toLocaleString_int [OF that] by (simp add: formatNumber_def)
  have b: "formatNumber ''none'' ''integer'' x = fixed_point 0 (val x)" if "\<bar>val x\<bar> < 10 ^ 21"
    using that by (simp add: formatNumber_def toFixed0_fixed_point)
  have c: "formatNumber ''none'' inc x = fixed_point 1 (val x)"
    if "\<bar>val x\<bar> < 10 ^ 21" "inc \<noteq> ''integer''"
    using that toFixed1_fixed_point [of x] by (simp add: formatNumber_def)
  from ex a g b c show ?thesis by blast
qed

theorem formatNumber_cases_witness:
  "\<bar>- 1234567 :: int\<bar> < 10 ^ 15 \<and> \<bar>val (Num (12345 / 10))\<bar> < 10 ^ 21 \<and> ''decimal'' \<noteq> ''integer'' \<and>
   formatNumber ''none'' ''decimal'' (Num (12345 / 10)) = fixed_point 1 (12345 / 10) \<and>
   fixed_point 1 (12345 / 10) = ''1234.5'' \<and>
   formatNumber ''none'' ''integer'' (Num (12345 / 10)) = fixed_point 0 (12345 / 10) \<and>
   fixed_point 0 (12345 / 10) = ''1235'' \<and>
   formatNumber ''comma'' ''decimal'' (Num (of_int (- 1234567))) = ''-'' @ thousands 1234567 \<and>
   thousands 1234567 = ''1,234,567''"
proof -
  have h: "\<bar>- 1234567 :: int\<bar> < 10 ^ 15" "\<bar>val (Num (12345 / 10))\<bar> < 10 ^ 21"
    "''decimal'' \<noteq> ''integer''"
    "fixed_point 1 (12345 / 10) = ''1234.5''" "fixed_point 0 (12345 / 10) = ''1235''"
    "thousands 1234567 = ''1,234,567''"
    by code_simp+
  note th = formatNumber_cases [of "''decimal''" "Num (12345 / 10)" "- 1234567"]
  from th h(2,3)
  have "formatNumber ''none'' ''decimal'' (Num (12345 / 10)) = fixed_point 1 (12345 / 10)"
    "formatNumber ''none'' ''integer'' (Num (12345 / 10)) = fixed_point 0 (12345 / 10)"
    by simp_all
  moreover from th h(1)
  have "formatNumber ''comma'' ''decimal'' (Num (of_int (- 1234567))) = ''-'' @ thousands 1234567"
    by simp
  ultimately show ?thesis using h by blast
qed

theorem formatNumber_cases_counterexample:
  "formatNumber ''none'' ''integer'' (Num (10 ^ 21)) = ''1e+21'' \<and>
   fixed_point 0 (10 ^ 21) = ''1000000000000000000000'' \<and>
   formatNumber ''none'' ''decimal'' (Num (10 ^ 21)) = ''1e+21'' \<and>
   fixed_point 1 (10 ^ 21) = ''1000000000000000000000.0''"
  by code_simp

text \<open>
  C5: with \<open>startOnViewport\<close> the timer runs only while the component is visible, and the
  count is reset to \<open>start\<close> when visibility is lost and regained. The reset is the branch
  \<open>else if (startOnViewport && isVisible)\<close> of the timer effect, which is only reached
  when \<open>isVisible\<close> is false, so it never runs: after two ticks, leaving the viewport and
  entering it again, the count is still 2 and not \<open>start = 0\<close>.
\<close>

theorem viewport_reentry_keeps_count:
  "map count (trace (mount (defaultProps\<lparr>start := Num 0, endv := Num 10, duration := Num 1000,
       startOnViewport := True\<rparr>))
     [Intersect True, Tick 1, Tick 2, Intersect False, Intersect True]) = [Num 0, Num 0, Num 1, Num 2, Num 2, Num 2]"
  by code_simp

text \<open>
  C6: with \<open>restartOnViewport\<close>, every change of visibility from false to true resets the
  count to \<open>start\<close> and the animation runs again from there, whatever the count was. In
  every reachable state that is mounted and not visible, the intersection event leaves the
  count at \<open>start\<close>, with an interval that closes over the current props, and the next tick
  of that interval is computed from \<open>start\<close>.
\<close>

theorem restart_on_reentry:
  assumes "s = run (mount p) evs" "mounted s" "\<not> isVisible s" "restartOnViewport (props s)"
  shows "let s' = step (Intersect True) s
         in isVisible s' \<and> count s' = start (props s) \<and> props s' = props s \<and>
            (\<exists>i. timerCleanup s' = Some i \<and>
                 intervals s' = [\<lparr>intervalId = i, delay = tick_delay (props s),
                                  callback = capture (props s)\<rparr>] \<and>
                 count (step (Tick i) s') = updateCount (capture (props s)) (start (props s)))"
proof -
  have st: "settled s" unfolding assms(1) by (rule settled_reach)
  define s' where "s' = step (Intersect True) s"
  note i = intersect_true [OF st assms(2,3), folded s'_def]
  have "scheduled s'" using i(2) by (simp add: scheduled_def)
  with settled_scheduled [OF i(1) i(4)] obtain j where j: "timerCleanup s' = Some j" by auto
  have "count (step (Tick j) s') = updateCount (capture (props s)) (start (props s))"
    using tick_count [OF i(1) j] i(3,5) assms(4) by simp
  moreover have "intervals s' = [\<lparr>intervalId = j, delay = tick_delay (props s),
                                  callback = capture (props s)\<rparr>]"
    using settled_timer(3) [OF i(1) j] i(3) by simp
  ultimately show ?thesis
    unfolding Let_def s'_def [symmetric] using i(2,3,5) assms(4) j by simp
qed

theorem restart_on_reentry_witness:
  fixes p s s'
  defines "p \<equiv> defaultProps\<lparr>start := Num 0, endv := Num 10, duration := Num 1000, startOnViewport := True,
      restartOnViewport := True\<rparr>"
  defines "s \<equiv> run (mount p) [Intersect True, Tick 1, Tick 2, Intersect False]"
  defines "s' \<equiv> step (Intersect True) s"
  shows "mounted s \<and> \<not> isVisible s \<and> restartOnViewport (props s) \<and> count s = Num 2 \<and>
      isVisible s' \<and> count s' = Num 0"
proof -
  have h: "mounted s" "\<not> isVisible s" "restartOnViewport (props s)" "count s = Num 2"
    "start (props s) = Num 0"
    unfolding s_def p_def by code_simp+
  from restart_on_reentry [OF refl h(1,2,3) [unfolded s_def]]
  have "isVisible s' \<and> count s' = start (props s)"
    unfolding s'_def s_def Let_def by blast
  with h show ?thesis by simp
qed

text \<open>
  C7: once the count reaches \<open>end\<close> the timer cancels its repeating tick. As the code has
  it: the interval does not depend on the count; in a mounted state whose count is \<open>end\<close>
  it is scheduled exactly when \<open>isVisible\<close> holds or \<open>startOnViewport\<close> is off and
  \<open>start\<close> differs from \<open>end\<close>. What stops is the count: with \<open>start \<le> end\<close> and an \<open>end\<close> of at
  most two decimals, a tick at \<open>end\<close> changes nothing.
\<close>

theorem timer_at_end:
  assumes "s = run (mount p) evs" "mounted s" "count s = endv (props s)"
  shows "(timerCleanup s \<noteq> None \<longleftrightarrow>
            isVisible s \<or> (\<not> startOnViewport (props s) \<and> num_ne (start (props s)) (endv (props s)))) \<and>
         (val (start (props s)) \<le> val (endv (props s)) \<and> two_decimals (endv (props s)) \<longrightarrow>
            (\<forall>i. timerCleanup s = Some i \<longrightarrow> step (Tick i) s = s))"
proof -
  have st: "settled s" unfolding assms(1) by (rule settled_reach)
  have a: "timerCleanup s \<noteq> None \<longleftrightarrow>
      isVisible s \<or> (\<not> startOnViewport (props s) \<and> num_ne (start (props s)) (endv (props s)))"
    using settled_scheduled [OF st assms(2)] by (simp add: scheduled_def)
  have b: "step (Tick i) s = s"
    if le: "val (start (props s)) \<le> val (endv (props s))" and td: "two_decimals (endv (props s))"
      and i: "timerCleanup s = Some i" for i
  proof -
    have "updateCount (capture (props s)) (count s) = count s"
      unfolding assms(3) by (rule tick_at_end [OF le td])
    then show ?thesis by (rule tick_idle [OF st i])
  qed
  from a b show ?thesis by blast
qed

theorem timer_at_end_witness:
  fixes s
  defines "s \<equiv> run (mount (defaultProps\<lparr>start := Num 0, endv := Num 2, duration := Num 200\<rparr>)) [Tick 1, Tick 2]"
  shows "mounted s \<and> count s = endv (props s) \<and> val (start (props s)) \<le> val (endv (props s)) \<and>
         two_decimals (endv (props s)) \<and> timerCleanup s = Some 3 \<and> step (Tick 3) s = s"
proof -
  have h: "mounted s" "count s = endv (props s)" "val (start (props s)) \<le> val (endv (props s))"
    "two_decimals (endv (props s))" "timerCleanup s = Some 3"
    unfolding s_def by code_simp+
  from timer_at_end [OF refl h(1,2) [unfolded s_def]] h(3,4,5)
  have "step (Tick 3) s = s" unfolding s_def by blast
  with h show ?thesis by simp
qed

theorem timer_at_end_counterexample:
  "count (run (mount (defaultProps\<lparr>start := Num 0, endv := Num 2, duration := Num 200\<rparr>)) [Tick 1, Tick 2])
     = Num 2 \<and>
   endv (defaultProps\<lparr>start := Num 0, endv := Num 2, duration := Num 200\<rparr>) = Num 2 \<and>
   map intervalId (intervals
     (run (mount (defaultProps\<lparr>start := Num 0, endv := Num 2, duration := Num 200\<rparr>)) [Tick 1, Tick 2])) = [3] \<and>
   timerCleanup (run (mount (defaultProps\<lparr>start := Num 0, endv := Num 2, duration := Num 200\<rparr>)) [Tick 1, Tick 2])
     = Some 3"
  by code_simp

text \<open>
  C8: tearing down the timer effect, on unmount or when a dependency changes, cancels the
  interval, and no tick of a torn-down effect changes the state afterwards. In every
  reachable state: unmounting empties the timer table and no later event changes the state;
  when an event replaces or removes the effect that owned handle \<open>i\<close>, that handle is in
  no later timer table and its tick changes nothing; an event that changes a dependency
  value of the effect does replace it; and the only interval in the table is the one the
  current cleanup will clear, closing over the current props.
\<close>

theorem teardown_cancels:
  assumes "s = run (mount p) evs"
  shows "intervals (step Unmount s) = [] \<and>
         (\<forall>evs'. run (step Unmount s) evs' = step Unmount s) \<and>
         (\<forall>e i evs'. timerCleanup s = Some i \<and> timerCleanup (step e s) \<noteq> Some i \<longrightarrow>
            i \<notin> intervalId ` set (intervals (run (step e s) evs')) \<and>
            step (Tick i) (run (step e s) evs') = run (step e s) evs') \<and>
         (\<forall>e i. timerCleanup s = Some i \<and> timer_deps_of (step e s) \<noteq> timer_deps_of s \<longrightarrow>
            timerCleanup (step e s) \<noteq> Some i) \<and>
         (\<forall>iv \<in> set (intervals s).
            intervals s = [iv] \<and> timerCleanup s = Some (intervalId iv) \<and>
            callback iv = capture (props s))"
proof -
  have st: "settled s" unfolding assms by (rule settled_reach)
  note u = unmount_fields [OF st]
  have a: "run (step Unmount s) evs' = step Unmount s" for evs'
    by (rule unmounted_run [OF u(1,2)])
  have b: "i \<notin> intervalId ` set (intervals (run (step e s) evs')) \<and>
      step (Tick i) (run (step e s) evs') = run (step e s) evs'"
    if "timerCleanup s = Some i" "timerCleanup (step e s) \<noteq> Some i" for e i evs'
  proof -
    have "cleared i (run (step e s) evs')"
      using torn_down_cleared [OF st that] settled_step [OF st] by (rule cleared_run [rotated])
    then show ?thesis using cleared_tick by (simp add: cleared_def)
  qed
  have c: "intervals s = [iv] \<and> timerCleanup s = Some (intervalId iv) \<and>
      callback iv = capture (props s)" if "iv \<in> set (intervals s)" for iv
    using st that by (auto simp: settled_def timer_ok_def split: if_splits)
  have d: "timerCleanup (step e s) \<noteq> Some i"
    if "timerCleanup s = Some i" "timer_deps_of (step e s) \<noteq> timer_deps_of s" for e i
    by (rule deps_change_refreshes [OF st that])
  from u(2) a b c d show ?thesis by blast
qed

theorem teardown_cancels_witness:
  fixes s t
  defines "s \<equiv> run (mount (defaultProps\<lparr>start := Num 0, endv := Num 10, duration := Num 1000\<rparr>)) [Tick 1]"
  defines "t \<equiv> run (step (Intersect True) s) [Tick 3]"
  shows "timerCleanup s = Some 2 \<and> timerCleanup (step (Intersect True) s) = Some 3 \<and>
         count t = Num 2 \<and> step (Tick 2) t = t \<and>
         intervals (step Unmount s) = [] \<and>
         run (step Unmount s) [Tick 2, Intersect True] = step Unmount s"
proof -
  have h: "timerCleanup s = Some 2" "timerCleanup (step (Intersect True) s) = Some 3"
    "count t = Num 2"
    unfolding t_def s_def by code_simp+
  have n: "timerCleanup (step (Intersect True) s) \<noteq> Some 2" unfolding h(2) by simp
  note th = teardown_cancels [OF refl, of "defaultProps\<lparr>start := Num 0, endv := Num 10, duration := Num 1000\<rparr>"
      "[Tick 1]", folded s_def]
  from th h(1) n have "step (Tick 2) t = t" unfolding t_def by blast
  moreover from th have "intervals (step Unmount s) = []"
    "run (step Unmount s) [Tick 2, Intersect True] = step Unmount s" by blast+
  ultimately show ?thesis using h by simp
qed

text \<open>
  C9: the number given to the formatter is \<open>Math.round(count)\<close>, a whole number, so with
  \<open>none\<close> and \<open>decimal\<close> the text of the number span ends in \<open>.0\<close>. As the code has it, the
  text is the sign, the digits of the rounded count and \<open>.0\<close> when the rounded count is
  below \<open>10^21\<close> in magnitude. The rounded count is a negative zero exactly for a count
  that is one or lies in \<open>[-0.5, 0)\<close>; \<open>toFixed\<close> writes it without a sign.
\<close>

theorem rendered_number_whole:
  "spanText (children (render p c) ! 1) =
     formatNumber (decimalSeparatorType p) (incrementType p) (Math_round c) \<and>
   val (Math_round c) = of_int \<lfloor>val c + 1 / 2\<rfloor> \<and>
   (Math_round c = NegZero \<longleftrightarrow> c = NegZero \<or> (- 1 / 2 \<le> val c \<and> val c < 0)) \<and>
   (decimalSeparatorType p = ''none'' \<and> incrementType p = ''decimal'' \<and>
    \<bar>val (Math_round c)\<bar> < 10 ^ 21 \<longrightarrow>
      spanText (children (render p c) ! 1) =
        (if val (Math_round c) < 0 then ''-'' else []) @ dec \<bar>\<lfloor>val c + 1 / 2\<rfloor>\<bar> @ ''.0'')"
proof -
  have a: "spanText (children (render p c) ! 1) =
     formatNumber (decimalSeparatorType p) (incrementType p) (Math_round c)"
    by (simp add: render_def)
  have r: "val (Math_round c) = of_int \<lfloor>val c + 1 / 2\<rfloor>" by simp
  have z: "Math_round c = NegZero \<longleftrightarrow> c = NegZero \<or> (- 1 / 2 \<le> val c \<and> val c < 0)"
  proof (cases c)
    case (Num x)
    have "\<lfloor>x + 1 / 2\<rfloor> = 0 \<longleftrightarrow> - 1 / 2 \<le> x \<and> x < 1 / 2"
      by (auto simp: floor_eq_iff)
    with Num show ?thesis by (auto simp: Math_round_def Let_def)
  next
    case NegZero
    then show ?thesis by (simp add: Math_round_def)
  qed
  have b: "spanText (children (render p c) ! 1) =
        (if val (Math_round c) < 0 then ''-'' else []) @ dec \<bar>\<lfloor>val c + 1 / 2\<rfloor>\<bar> @ ''.0''"
    if "decimalSeparatorType p = ''none''" "incrementType p = ''decimal''"
      "\<bar>val (Math_round c)\<bar> < 10 ^ 21"
  proof -
    have "spanText (children (render p c) ! 1) = formatNumber ''none'' ''decimal'' (Math_round c)"
      unfolding a that(1,2) ..
    also have "\<dots> = fixed_point 1 (val (Math_round c))"
      using that(3) toFixed1_fixed_point [of "Math_round c"] by (simp add: formatNumber_def)
    also have "\<dots> = fixed_point 1 (of_int \<lfloor>val c + 1 / 2\<rfloor>)"
      by (simp only: r)
    also have "\<dots> = (if \<lfloor>val c + 1 / 2\<rfloor> < 0 then ''-'' else []) @ dec \<bar>\<lfloor>val c + 1 / 2\<rfloor>\<bar> @ ''.0''"
      by (rule fixed_point1_int)
    also have "(\<lfloor>val c + 1 / 2\<rfloor> < 0) = (val (Math_round c) < 0)"
      by (simp only: r of_int_less_0_iff)
    finally show ?thesis .
  qed
  from a r z b show ?thesis by blast
qed

theorem rendered_number_whole_witness:
  "decimalSeparatorType (defaultProps\<lparr>decimalSeparatorType := ''none'', incrementType := ''decimal''\<rparr>)
     = ''none'' \<and>
   incrementType (defaultProps\<lparr>decimalSeparatorType := ''none'', incrementType := ''decimal''\<rparr>)
     = ''decimal'' \<and>
   \<bar>val (Math_round (Num (5 / 2)))\<bar> < 10 ^ 21 \<and>
   spanText (children (render
       (defaultProps\<lparr>decimalSeparatorType := ''none'', incrementType := ''decimal''\<rparr>) (Num (5 / 2))) ! 1)
     = ''3.0''"
proof -
  have h: "decimalSeparatorType (defaultProps\<lparr>decimalSeparatorType := ''none'', incrementType := ''decimal''\<rparr>)
     = ''none''"
    "incrementType (defaultProps\<lparr>decimalSeparatorType := ''none'', incrementType := ''decimal''\<rparr>)
     = ''decimal''"
    "\<bar>val (Math_round (Num (5 / 2)))\<bar> < 10 ^ 21"
    by code_simp+
  have e: "(if val (Math_round (Num (5 / 2))) < 0 then ''-'' else []) @
      dec \<bar>\<lfloor>val (Num (5 / 2)) + 1 / 2\<rfloor>\<bar> @ ''.0'' = ''3.0''"
    by code_simp
  from rendered_number_whole [of
      "defaultProps\<lparr>decimalSeparatorType := ''none'', incrementType := ''decimal''\<rparr>" "Num (5 / 2)"] h
  have "spanText (children (render
       (defaultProps\<lparr>decimalSeparatorType := ''none'', incrementType := ''decimal''\<rparr>) (Num (5 / 2))) ! 1)
     = (if val (Math_round (Num (5 / 2))) < 0 then ''-'' else []) @
       dec \<bar>\<lfloor>val (Num (5 / 2)) + 1 / 2\<rfloor>\<bar> @ ''.0''"
    by blast
  with h e show ?thesis by simp
qed

theorem rendered_number_whole_counterexample:
  "Math_round (Num (10 ^ 21)) = Num (10 ^ 21) \<and>
   spanText (children (render
       (defaultProps\<lparr>decimalSeparatorType := ''none'', incrementType := ''decimal''\<rparr>) (Num (10 ^ 21))) ! 1)
     = ''1e+21''"
  by code_simp

text \<open>
  C10: the \<open>loop\<close> prop has no effect: two runs that differ only in the value of \<open>loop\<close>,
  in the mounted props and in every later props, go through the same counts, the same
  visibility, the same rendered elements and the same timer tables.
\<close>

theorem loop_has_no_effect:
  "map count (trace (mount (p\<lparr>loop := a\<rparr>)) (map (with_loop a) evs)) =
     map count (trace (mount (p\<lparr>loop := b\<rparr>)) (map (with_loop b) evs)) \<and>
   map isVisible (trace (mount (p\<lparr>loop := a\<rparr>)) (map (with_loop a) evs)) =
     map isVisible (trace (mount (p\<lparr>loop := b\<rparr>)) (map (with_loop b) evs)) \<and>
   map rendered (trace (mount (p\<lparr>loop := a\<rparr>)) (map (with_loop a) evs)) =
     map rendered (trace (mount (p\<lparr>loop := b\<rparr>)) (map (with_loop b) evs)) \<and>
   map intervals (trace (mount (p\<lparr>loop := a\<rparr>)) (map (with_loop a) evs)) =
     map intervals (trace (mount (p\<lparr>loop := b\<rparr>)) (map (with_loop b) evs))"
proof -
  let ?ta = "trace (mount (p\<lparr>loop := a\<rparr>)) (map (with_loop a) evs)"
  let ?tb = "trace (mount (p\<lparr>loop := b\<rparr>)) (map (with_loop b) evs)"
  have "map (loop_to b) ?ta = trace (loop_to b (mount (p\<lparr>loop := a\<rparr>))) (map (with_loop b) evs)"
    by (rule loop_trace) (simp_all add: loop_mount)
  then have eq: "?tb = map (loop_to b) ?ta" by (simp add: loop_mount(3))
  show ?thesis unfolding eq by (simp add: comp_def)
qed

end
